theory Spec2Isabelle
  imports Main
begin

section \<open>Constants of the program\<close>

text \<open>The constant block of \<^verbatim>\<open>main.go\<close>. The two timing constants
  (\<^verbatim>\<open>requestTimeout\<close>, \<^verbatim>\<open>retryDelay\<close>) only delay a worker and have no
  counterpart here.\<close>

definition chunkSize :: nat where
  "chunkSize = 4000"

definition maxConcurrentRequests :: nat where
  "maxConcurrentRequests = 3"

definition maxRetries :: nat where
  "maxRetries = 3"

text \<open>\<^verbatim>\<open>bufio.NewReader\<close> allocates a buffer of \<^verbatim>\<open>defaultBufSize\<close> bytes.\<close>

definition defaultBufSize :: nat where
  "defaultBufSize = 4096"


section \<open>The chunker: \<^verbatim>\<open>bufio.Reader.Read\<close> in a loop\<close>

text \<open>The input file as the operating system delivers it. One \<^verbatim>\<open>Read\<close> on the
  file returns at most the next pending piece (a short read leaves the rest of the piece
  pending); an empty piece is a read of zero bytes without error. Once the pieces are
  used up the file reports end of file, or an I/O error when \<open>fails\<close> is set. The
  bytes of the file are \<open>concat (pending f)\<close>.\<close>

record osfile =
  pending :: "string list"
  fails :: bool

datatype rd_result = RdEOF | RdErr | RdData string

fun file_Read :: "nat \<Rightarrow> osfile \<Rightarrow> rd_result \<times> osfile" where
  "file_Read n f =
     (case pending f of
        [] \<Rightarrow> (if fails f then RdErr else RdEOF, f)
      | p # ps \<Rightarrow>
          if length p \<le> n then (RdData p, f\<lparr>pending := ps\<rparr>)
          else (RdData (take n p), f\<lparr>pending := drop n p # ps\<rparr>))"

text \<open>\<^verbatim>\<open>bufio.Reader\<close>: the underlying file and the unread part of the buffer
  (\<^verbatim>\<open>b.buf[b.r:b.w]\<close>).\<close>

record reader =
  rd :: osfile
  buf :: string

text \<open>\<^verbatim>\<open>(b *Reader) Read(p)\<close> with \<open>bs = len(b.buf)\<close> and \<open>plen = len(p)\<close>.
  With an empty buffer it reads the file once: straight into \<open>p\<close> when \<open>p\<close> is at
  least as large as the buffer, into the buffer otherwise. Then it copies as much of the
  buffer as fits into \<open>p\<close>. It never reads the file twice, so a call may return fewer
  than \<open>plen\<close> bytes.\<close>

definition bufio_Read :: "nat \<Rightarrow> nat \<Rightarrow> reader \<Rightarrow> rd_result \<times> reader" where
  "bufio_Read bs plen b =
     (if plen = 0 then (RdData [], b)
      else if buf b = [] then
        (if bs \<le> plen then
           (case file_Read plen (rd b) of (r, f') \<Rightarrow> (r, b\<lparr>rd := f'\<rparr>))
         else
           (case file_Read bs (rd b) of
              (RdData d, f') \<Rightarrow> (RdData (take plen d), \<lparr>rd = f', buf = drop plen d\<rparr>)
            | (r, f') \<Rightarrow> (r, b\<lparr>rd := f'\<rparr>)))
      else (RdData (take plen (buf b)), b\<lparr>buf := drop plen (buf b)\<rparr>))"

datatype fatal =
    FatalStat | FatalOpen | FatalRead | FatalMkdir | FatalWrite

text \<open>The loop \<^verbatim>\<open>for { n, err := reader.Read(chunk); ... }\<close> of \<^verbatim>\<open>main\<close>:
  end of file leaves the loop, any other error is \<^verbatim>\<open>log.Fatalf\<close>, and otherwise
  \<^verbatim>\<open>string(chunk[:n])\<close> is appended. The result is \<open>None\<close> when the loop does not
  end.\<close>

partial_function (option) read_loop ::
  "nat \<Rightarrow> nat \<Rightarrow> reader \<Rightarrow> string list \<Rightarrow> (fatal + string list) option" where
  "read_loop bs S b chunks =
     (case bufio_Read bs S b of
        (RdEOF, b') \<Rightarrow> Some (Inr chunks)
      | (RdErr, b') \<Rightarrow> Some (Inl FatalRead)
      | (RdData d, b') \<Rightarrow> read_loop bs S b' (chunks @ [d]))"

declare read_loop.simps [code]

definition chunker :: "osfile \<Rightarrow> (fatal + string list) option" where
  "chunker f = read_loop defaultBufSize chunkSize \<lparr>rd = f, buf = []\<rparr> []"


section \<open>JSON documents and \<^verbatim>\<open>json.Unmarshal\<close>\<close>

text \<open>A JSON document after the syntax check of \<^verbatim>\<open>json.Unmarshal\<close>, with the
  members of an object in document order (duplicates kept). Bytes that fail the syntax
  check are \<open>None\<close> of type \<open>json option\<close>. A number is its literal together with
  what \<^verbatim>\<open>strconv.ParseFloat(literal, 64)\<close> makes of it: \<open>True\<close> when the value is in
  the range of \<^verbatim>\<open>float64\<close>, \<open>False\<close> when the conversion reports a range error (as
  for \<^verbatim>\<open>1e400\<close>).\<close>

datatype json =
    JNull
  | JBool bool
  | JNumber string bool
  | JString string
  | JArray "json list"
  | JObject "(string \<times> json) list"

datatype json_error = SyntaxError | UnmarshalTypeError

text \<open>Matching of an object key against a struct field: \<^verbatim>\<open>encoding/json\<close>
  compares the folded names. Folding maps an ASCII letter to upper case and every other
  rune to the smallest rune of its case-folding orbit; the only non-ASCII runes that fold
  to ASCII are U+017F (bytes C5 BF, to \<open>S\<close>) and U+212A (bytes E2 84 AA, to \<open>K\<close>). All
  other bytes are left as they are: they never equal a byte of a folded ASCII field
  name.\<close>

definition toUpper :: "char \<Rightarrow> char" where
  "toUpper c =
     (let n = (of_char c :: nat) in if 97 \<le> n \<and> n \<le> 122 then char_of (n - 32) else c)"

fun foldName :: "string \<Rightarrow> string" where
  "foldName [] = []"
| "foldName (c # cs) =
     (if c = CHR 0xC5 \<and> take 1 cs = [CHR 0xBF] then CHR ''S'' # foldName (drop 1 cs)
      else if c = CHR 0xE2 \<and> take 2 cs = [CHR 0x84, CHR 0xAA] then CHR ''K'' # foldName (drop 2 cs)
      else toUpper c # foldName cs)"

definition field_match :: "string \<Rightarrow> string \<Rightarrow> bool" where
  "field_match name key = (foldName key = foldName name)"

text \<open>Storing a JSON value into a field of type \<^verbatim>\<open>string\<close> or \<^verbatim>\<open>bool\<close>:
  \<^verbatim>\<open>null\<close> leaves the field alone, a value of another type is an
  \<^verbatim>\<open>UnmarshalTypeError\<close> that leaves the field alone as well. The decoder
  keeps the earliest error and goes on with the remaining members.\<close>

type_synonym 'a decoded = "json_error option \<times> 'a"

definition first_err :: "json_error option \<Rightarrow> json_error option \<Rightarrow> json_error option" where
  "first_err e e' = (case e of None \<Rightarrow> e' | Some x \<Rightarrow> Some x)"

fun set_string :: "json \<Rightarrow> string \<Rightarrow> string decoded" where
  "set_string (JString s) old = (None, s)"
| "set_string JNull old = (None, old)"
| "set_string _ old = (Some UnmarshalTypeError, old)"

fun set_bool :: "json \<Rightarrow> bool \<Rightarrow> bool decoded" where
  "set_bool (JBool b) old = (None, b)"
| "set_bool JNull old = (None, old)"
| "set_bool _ old = (Some UnmarshalTypeError, old)"

text \<open>\<^verbatim>\<open>type OllamaGenerateResponse struct { Response string; Done bool }\<close>\<close>

record OllamaGenerateResponse =
  Response :: string
  Done :: bool

definition generate_member ::
  "string \<times> json \<Rightarrow> OllamaGenerateResponse decoded \<Rightarrow> OllamaGenerateResponse decoded" where
  "generate_member kv acc =
     (case (kv, acc) of ((k, v), (e, r)) \<Rightarrow>
        if field_match ''response'' k then
          (case set_string v (Response r) of (e', x) \<Rightarrow> (first_err e e', r\<lparr>Response := x\<rparr>))
        else if field_match ''done'' k then
          (case set_bool v (Done r) of (e', x) \<Rightarrow> (first_err e e', r\<lparr>Done := x\<rparr>))
        else (e, r))"

text \<open>\<^verbatim>\<open>json.Unmarshal(line, &generateResp)\<close> on a fresh (zero) struct.\<close>

definition unmarshalGenerate :: "json option \<Rightarrow> OllamaGenerateResponse decoded" where
  "unmarshalGenerate doc =
     (let zero = \<lparr>Response = [], Done = False\<rparr> in
      case doc of
        None \<Rightarrow> (Some SyntaxError, zero)
      | Some JNull \<Rightarrow> (None, zero)
      | Some (JObject kvs) \<Rightarrow> foldl (\<lambda>acc kv. generate_member kv acc) (None, zero) kvs
      | Some _ \<Rightarrow> (Some UnmarshalTypeError, zero))"

text \<open>\<^verbatim>\<open>type OllamaCompletionResponse struct { Model, CreatedAt string;
  Message struct { Role, Content string }; Done bool }\<close>\<close>

record ChatMessage =
  Role :: string
  Content :: string

record OllamaCompletionResponse =
  Model :: string
  CreatedAt :: string
  Message :: ChatMessage
  ChatDone :: bool

definition message_member :: "string \<times> json \<Rightarrow> ChatMessage decoded \<Rightarrow> ChatMessage decoded" where
  "message_member kv acc =
     (case (kv, acc) of ((k, v), (e, r)) \<Rightarrow>
        if field_match ''role'' k then
          (case set_string v (Role r) of (e', x) \<Rightarrow> (first_err e e', r\<lparr>Role := x\<rparr>))
        else if field_match ''content'' k then
          (case set_string v (Content r) of (e', x) \<Rightarrow> (first_err e e', r\<lparr>Content := x\<rparr>))
        else (e, r))"

fun set_message :: "json \<Rightarrow> ChatMessage \<Rightarrow> ChatMessage decoded" where
  "set_message (JObject kvs) old = foldl (\<lambda>acc kv. message_member kv acc) (None, old) kvs"
| "set_message JNull old = (None, old)"
| "set_message _ old = (Some UnmarshalTypeError, old)"

definition completion_member ::
  "string \<times> json \<Rightarrow> OllamaCompletionResponse decoded \<Rightarrow> OllamaCompletionResponse decoded" where
  "completion_member kv acc =
     (case (kv, acc) of ((k, v), (e, r)) \<Rightarrow>
        if field_match ''model'' k then
          (case set_string v (Model r) of (e', x) \<Rightarrow> (first_err e e', r\<lparr>Model := x\<rparr>))
        else if field_match ''created_at'' k then
          (case set_string v (CreatedAt r) of (e', x) \<Rightarrow> (first_err e e', r\<lparr>CreatedAt := x\<rparr>))
        else if field_match ''message'' k then
          (case set_message v (Message r) of (e', x) \<Rightarrow> (first_err e e', r\<lparr>Message := x\<rparr>))
        else if field_match ''done'' k then
          (case set_bool v (ChatDone r) of (e', x) \<Rightarrow> (first_err e e', r\<lparr>ChatDone := x\<rparr>))
        else (e, r))"

text \<open>\<^verbatim>\<open>json.Unmarshal(body, &chatResp)\<close> on a fresh (zero) struct.\<close>

definition unmarshalCompletion :: "json option \<Rightarrow> OllamaCompletionResponse decoded" where
  "unmarshalCompletion doc =
     (let zero = \<lparr>Model = [], CreatedAt = [],
                  Message = \<lparr>Role = [], Content = []\<rparr>, ChatDone = False\<rparr> in
      case doc of
        None \<Rightarrow> (Some SyntaxError, zero)
      | Some JNull \<Rightarrow> (None, zero)
      | Some (JObject kvs) \<Rightarrow> foldl (\<lambda>acc kv. completion_member kv acc) (None, zero) kvs
      | Some _ \<Rightarrow> (Some UnmarshalTypeError, zero))"

text \<open>Decoding into \<^verbatim>\<open>interface{}\<close> converts every number with
  \<^verbatim>\<open>strconv.ParseFloat\<close>; a number that does not convert, at whatever depth, is an
  \<^verbatim>\<open>UnmarshalTypeError\<close> of the whole call (the decoder stores \<^verbatim>\<open>nil\<close> for
  it and goes on).\<close>

fun numbers_fit :: "json \<Rightarrow> bool" where
  "numbers_fit (JNumber literal fits) = fits"
| "numbers_fit (JArray xs) = list_all numbers_fit xs"
| "numbers_fit (JObject kvs) = list_all numbers_fit (map snd kvs)"
| "numbers_fit _ = True"

text \<open>\<^verbatim>\<open>json.Unmarshal(body, &result)\<close> for \<^verbatim>\<open>result map[string]interface{}\<close>:
  the map keeps the last value of a repeated key, and keys are compared exactly.
  \<^verbatim>\<open>null\<close> leaves the map \<^verbatim>\<open>nil\<close>, where every lookup misses. The error is
  set when a number of the document does not convert.\<close>

definition unmarshalMap :: "json option \<Rightarrow> (string \<rightharpoonup> json) decoded" where
  "unmarshalMap doc =
     (case doc of
        None \<Rightarrow> (Some SyntaxError, Map.empty)
      | Some JNull \<Rightarrow> (None, Map.empty)
      | Some (JObject kvs) \<Rightarrow>
          (if numbers_fit (JObject kvs) then None else Some UnmarshalTypeError, map_of (rev kvs))
      | Some _ \<Rightarrow> (Some UnmarshalTypeError, Map.empty))"

text \<open>The type assertions \<^verbatim>\<open>m[k].(map[string]interface{})\<close> and
  \<^verbatim>\<open>m[k].(string)\<close>.\<close>

definition as_map :: "json option \<Rightarrow> (string \<rightharpoonup> json) option" where
  "as_map v = (case v of Some (JObject kvs) \<Rightarrow> Some (map_of (rev kvs)) | _ \<Rightarrow> None)"

definition as_string :: "json option \<Rightarrow> string option" where
  "as_string v = (case v of Some (JString s) \<Rightarrow> Some s | _ \<Rightarrow> None)"


section \<open>\<^verbatim>\<open>processChunk\<close>\<close>

datatype perror =
    ErrCallAPI
  | ErrStatus nat string
  | ErrParseLine
  | ErrReadStream
  | ErrReadBody
  | ErrParseChat
  | ErrExtract string

datatype request =
    GenerateRequest string string
  | ChatRequest string "(string \<times> string) list"

text \<open>What \<^verbatim>\<open>client.Post\<close> returns. The body of a response is read by one of two
  library readers, and the record holds what each of them delivers: \<open>Lines\<close> are the
  tokens of \<^verbatim>\<open>bufio.Scanner\<close>, each as \<^verbatim>\<open>json.Unmarshal\<close> sees it, and
  \<open>ScanErr\<close> tells whether \<^verbatim>\<open>scanner.Err()\<close> is non-nil when the scan loop is
  left; \<open>Body\<close> is the result of \<^verbatim>\<open>io.ReadAll\<close> as \<^verbatim>\<open>json.Unmarshal\<close>
  sees it, \<open>BodyText\<close> the same bytes as text, and \<open>ReadErr\<close> tells whether
  \<^verbatim>\<open>io.ReadAll\<close> failed.\<close>

record http_response =
  StatusCode :: nat
  Lines :: "json option list"
  ScanErr :: bool
  Body :: "json option"
  BodyText :: string
  ReadErr :: bool

datatype http_result = PostFailed | Responded http_response

type_synonym http_client = "string \<Rightarrow> request \<Rightarrow> http_result"

definition prompt :: "string \<Rightarrow> string" where
  "prompt content =
     ''Compress this text fragment without losing important information: '' @ content"

text \<open>The scan loop of the generate endpoint: every line is decoded into a fresh
  struct, a line that does not decode ends the call with an error, and a line with
  \<^verbatim>\<open>done\<close> set leaves the loop. \<^verbatim>\<open>scanner.Err()\<close> is checked after the loop.\<close>

fun scan_loop :: "json option list \<Rightarrow> string \<Rightarrow> perror + string" where
  "scan_loop [] result = Inr result"
| "scan_loop (line # rest) result =
     (case unmarshalGenerate line of
        (Some err, generateResp) \<Rightarrow> Inl ErrParseLine
      | (None, generateResp) \<Rightarrow>
          if Done generateResp then Inr (result @ Response generateResp)
          else scan_loop rest (result @ Response generateResp))"

definition parse_generate :: "http_response \<Rightarrow> perror + string" where
  "parse_generate resp =
     (case scan_loop (Lines resp) [] of
        Inl e \<Rightarrow> Inl e
      | Inr result \<Rightarrow> if ScanErr resp then Inl ErrReadStream else Inr result)"

text \<open>The chat endpoint: the typed decoding first, then the generic map.\<close>

definition parse_chat :: "http_response \<Rightarrow> perror + string" where
  "parse_chat resp =
     (if ReadErr resp then Inl ErrReadBody
      else
        (case unmarshalCompletion (Body resp) of (err, chatResp) \<Rightarrow>
           if err = None \<and> Content (Message chatResp) \<noteq> [] then
             Inr (Content (Message chatResp))
           else
             (case unmarshalMap (Body resp) of
                (Some err', result) \<Rightarrow> Inl ErrParseChat
              | (None, result) \<Rightarrow>
                  (case as_map (result ''message'') of
                     Some message \<Rightarrow>
                       (case as_string (message ''content'') of
                          Some content \<Rightarrow> Inr content
                        | None \<Rightarrow> Inl (ErrExtract (BodyText resp)))
                   | None \<Rightarrow> Inl (ErrExtract (BodyText resp))))))"

text \<open>\<^verbatim>\<open>processChunk(client, ollamaURL, modelName, content, apiEndpoint)\<close>.
  \<^verbatim>\<open>json.Marshal\<close> of a struct of strings does not fail, so the branch
  \<^verbatim>\<open>error creating request\<close> has no counterpart.\<close>

definition processChunk ::
  "http_client \<Rightarrow> string \<Rightarrow> string \<Rightarrow> string \<Rightarrow> string \<Rightarrow> perror + string" where
  "processChunk client ollamaURL modelName content apiEndpoint =
     (let requestBody =
            (if apiEndpoint = ''generate'' then GenerateRequest modelName (prompt content)
             else ChatRequest modelName [(''user'', prompt content)])
      in case client ollamaURL requestBody of
           PostFailed \<Rightarrow> Inl ErrCallAPI
         | Responded resp \<Rightarrow>
             if StatusCode resp \<noteq> 200 then Inl (ErrStatus (StatusCode resp) (BodyText resp))
             else if apiEndpoint = ''generate'' then parse_generate resp
             else parse_chat resp)"


section \<open>The worker body: retries around \<^verbatim>\<open>processChunk\<close>\<close>

text \<open>\<^verbatim>\<open>type ChunkResult struct { Index int; Content string; Error error }\<close>\<close>

record ChunkResult =
  Index :: nat
  Content :: string
  Error :: "perror option"

text \<open>What the worker writes with \<^verbatim>\<open>log.Printf\<close>: the line
  \<^verbatim>\<open>Attempt %d: Error processing chunk %d: %v\<close> after a failed call (with
  \<^verbatim>\<open>attempt+1\<close>, the index and the error), and the line
  \<^verbatim>\<open>All attempts failed for chunk %d: %v\<close>.\<close>

datatype log_line =
    AttemptFailed nat nat perror
  | AllAttemptsFailed nat perror

text \<open>The loop \<^verbatim>\<open>for attempt := 0; attempt < maxRetries; attempt++\<close> of the worker.
  \<open>call attempt\<close> is the call of \<^verbatim>\<open>processChunk\<close> made in that iteration. The
  function returns the final values of \<^verbatim>\<open>result\<close> and \<^verbatim>\<open>processErr\<close>, the
  number of calls it has made, and the lines it has logged.\<close>

function retry ::
  "(nat \<Rightarrow> perror + string) \<Rightarrow> nat \<Rightarrow> nat \<Rightarrow> string \<Rightarrow> perror option \<Rightarrow> nat
     \<Rightarrow> log_line list \<Rightarrow> string \<times> perror option \<times> nat \<times> log_line list" where
  "retry call index attempt result processErr calls logged =
     (if attempt < maxRetries then
        (case call attempt of
           Inr r \<Rightarrow> (r, None, calls + 1, logged)
         | Inl e \<Rightarrow>
             retry call index (attempt + 1) [] (Some e) (calls + 1)
               (logged @ [AttemptFailed (attempt + 1) index e]))
      else (result, processErr, calls, logged))"
  by pat_completeness auto
termination
  by (relation "measure (\<lambda>(call, index, attempt, result, processErr, calls, logged).
        maxRetries - attempt)") auto

declare retry.simps [simp del]

text \<open>The network as the run meets it: \<open>net index attempt\<close> is the behaviour of
  \<^verbatim>\<open>client.Post\<close> during the given attempt of the worker for the given chunk.\<close>

type_synonym network = "nat \<Rightarrow> nat \<Rightarrow> http_client"

text \<open>The body of the goroutine \<^verbatim>\<open>func(index int, content string)\<close> up to the send
  on \<^verbatim>\<open>results\<close>: the value it sends, the number of \<^verbatim>\<open>processChunk\<close> calls
  it has made, and the lines it has logged.\<close>

definition worker ::
  "network \<Rightarrow> string \<Rightarrow> string \<Rightarrow> string \<Rightarrow> nat \<Rightarrow> string
     \<Rightarrow> ChunkResult \<times> nat \<times> log_line list" where
  "worker net ollamaURL modelName apiEndpoint index content =
     (case retry (\<lambda>attempt. processChunk (net index attempt) ollamaURL modelName content apiEndpoint)
             index 0 [] None 0 [] of
        (result, processErr, calls, logged) \<Rightarrow>
          (case processErr of
             Some err \<Rightarrow>
               (\<lparr>Index = index, Content = content, Error = processErr\<rparr>, calls,
                logged @ [AllAttemptsFailed index err])
           | None \<Rightarrow> (\<lparr>Index = index, Content = result, Error = None\<rparr>, calls, logged)))"


section \<open>The scheduler: semaphore, wait group, result channel\<close>

text \<open>The goroutines of \<^verbatim>\<open>main\<close> as an interleaving of atomic steps. A worker is
  \<open>Idle\<close> before its \<^verbatim>\<open>go\<close> statement, \<open>Working\<close> while it runs the retry loop,
  \<open>Sent\<close> once it has sent its result, \<open>Released\<close> once the deferred
  \<^verbatim>\<open><-semaphore\<close> has run, and \<open>Exited\<close> after the deferred \<^verbatim>\<open>wg.Done()\<close>.\<close>

datatype phase = Idle | Working | Sent | Released | Exited

text \<open>The main goroutine is at the head of iteration \<open>i\<close> of the spawn loop
  (\<open>Loop i\<close>), has passed \<^verbatim>\<open>wg.Add(1)\<close> and \<^verbatim>\<open>semaphore <- struct{}{}\<close> of that
  iteration (\<open>Acquired i\<close>), is in the loop \<^verbatim>\<open>for result := range results\<close>
  (\<open>Collect\<close>), has left it (\<open>Finished\<close>), or has panicked on an index out of range
  (\<open>Panicked\<close>).\<close>

datatype main_pc = Loop nat | Acquired nat | Collect | Finished | Panicked

text \<open>\<open>sem\<close> is the number of tokens in the channel \<^verbatim>\<open>semaphore\<close>, \<open>wg\<close> the
  counter of the wait group, \<open>results\<close> the buffer of the channel \<^verbatim>\<open>results\<close>
  (oldest first) and \<open>closed\<close> whether it has been closed. \<open>received\<close> is the
  sequence of values the range loop has received so far; the program does not keep it.\<close>

record sched =
  pc :: main_pc
  workers :: "phase list"
  sem :: nat
  wg :: nat
  results :: "ChunkResult list"
  closed :: bool
  processedChunks :: "string list"
  errorCount :: nat
  received :: "ChunkResult list"

definition init :: "nat \<Rightarrow> sched" where
  "init N =
     \<lparr>pc = Loop 0, workers = replicate N Idle, sem = 0, wg = 0, results = [], closed = False,
      processedChunks = replicate N [], errorCount = 0, received = []\<rparr>"

text \<open>One step of one goroutine. \<open>K\<close> is the capacity of \<^verbatim>\<open>semaphore\<close>, \<open>N\<close> the
  number of chunks (and the capacity of \<^verbatim>\<open>results\<close>), \<open>res i\<close> the value worker
  \<open>i\<close> sends. A send blocks on a full channel and a receive on an empty one, so each
  is a step only when it can proceed.\<close>

inductive step :: "nat \<Rightarrow> nat \<Rightarrow> (nat \<Rightarrow> ChunkResult) \<Rightarrow> sched \<Rightarrow> sched \<Rightarrow> bool"
  for K :: nat and N :: nat and res :: "nat \<Rightarrow> ChunkResult" where
  acquire:
    "pc s = Loop i \<Longrightarrow> i < N \<Longrightarrow> sem s < K \<Longrightarrow>
     step K N res s (s\<lparr>pc := Acquired i, wg := wg s + 1, sem := sem s + 1\<rparr>)"
| spawn:
    "pc s = Acquired i \<Longrightarrow>
     step K N res s (s\<lparr>pc := Loop (i + 1), workers := (workers s)[i := Working]\<rparr>)"
| leave_loop:
    "pc s = Loop i \<Longrightarrow> \<not> i < N \<Longrightarrow>
     step K N res s (s\<lparr>pc := Collect\<rparr>)"
| send:
    "i < length (workers s) \<Longrightarrow> workers s ! i = Working \<Longrightarrow> length (results s) < N \<Longrightarrow>
     step K N res s (s\<lparr>results := results s @ [res i], workers := (workers s)[i := Sent]\<rparr>)"
| release:
    "i < length (workers s) \<Longrightarrow> workers s ! i = Sent \<Longrightarrow> 0 < sem s \<Longrightarrow>
     step K N res s (s\<lparr>sem := sem s - 1, workers := (workers s)[i := Released]\<rparr>)"
| wg_done:
    "i < length (workers s) \<Longrightarrow> workers s ! i = Released \<Longrightarrow> 0 < wg s \<Longrightarrow>
     step K N res s (s\<lparr>wg := wg s - 1, workers := (workers s)[i := Exited]\<rparr>)"
| close_results:
    "pc s = Collect \<Longrightarrow> wg s = 0 \<Longrightarrow> \<not> closed s \<Longrightarrow>
     step K N res s (s\<lparr>closed := True\<rparr>)"
| collect:
    "pc s = Collect \<Longrightarrow> results s = r # rs \<Longrightarrow> Index r < length (processedChunks s) \<Longrightarrow>
     step K N res s
       (s\<lparr>results := rs,
          processedChunks := (processedChunks s)[Index r := Content r],
          errorCount := (if Error r \<noteq> None then errorCount s + 1 else errorCount s),
          received := received s @ [r]\<rparr>)"
| collect_panic:
    "pc s = Collect \<Longrightarrow> results s = r # rs \<Longrightarrow> \<not> Index r < length (processedChunks s) \<Longrightarrow>
     step K N res s (s\<lparr>pc := Panicked\<rparr>)"
| leave_range:
    "pc s = Collect \<Longrightarrow> results s = [] \<Longrightarrow> closed s \<Longrightarrow>
     step K N res s (s\<lparr>pc := Finished\<rparr>)"

inductive reachable :: "nat \<Rightarrow> nat \<Rightarrow> (nat \<Rightarrow> ChunkResult) \<Rightarrow> sched \<Rightarrow> bool"
  for K :: nat and N :: nat and res :: "nat \<Rightarrow> ChunkResult" where
  r_init: "reachable K N res (init N)"
| r_step: "reachable K N res s \<Longrightarrow> step K N res s s' \<Longrightarrow> reachable K N res s'"

text \<open>The same steps as a function: the states one step away from \<open>s\<close>, by the main
  goroutine, by the goroutine that closes the channel, and by each worker.\<close>

definition main_steps :: "nat \<Rightarrow> nat \<Rightarrow> sched \<Rightarrow> sched list" where
  "main_steps K N s =
     (case pc s of
        Loop i \<Rightarrow>
          if i < N then
            (if sem s < K then [s\<lparr>pc := Acquired i, wg := wg s + 1, sem := sem s + 1\<rparr>] else [])
          else [s\<lparr>pc := Collect\<rparr>]
      | Acquired i \<Rightarrow> [s\<lparr>pc := Loop (i + 1), workers := (workers s)[i := Working]\<rparr>]
      | Collect \<Rightarrow>
          (case results s of
             r # rs \<Rightarrow>
               if Index r < length (processedChunks s) then
                 [s\<lparr>results := rs,
                    processedChunks := (processedChunks s)[Index r := Content r],
                    errorCount := (if Error r \<noteq> None then errorCount s + 1 else errorCount s),
                    received := received s @ [r]\<rparr>]
               else [s\<lparr>pc := Panicked\<rparr>]
           | [] \<Rightarrow> if closed s then [s\<lparr>pc := Finished\<rparr>] else [])
      | _ \<Rightarrow> [])"

definition closer_steps :: "sched \<Rightarrow> sched list" where
  "closer_steps s =
     (if pc s = Collect \<and> wg s = 0 \<and> \<not> closed s then [s\<lparr>closed := True\<rparr>] else [])"

definition worker_steps :: "nat \<Rightarrow> (nat \<Rightarrow> ChunkResult) \<Rightarrow> sched \<Rightarrow> nat \<Rightarrow> sched list" where
  "worker_steps N res s i =
     (case workers s ! i of
        Working \<Rightarrow>
          if length (results s) < N then
            [s\<lparr>results := results s @ [res i], workers := (workers s)[i := Sent]\<rparr>]
          else []
      | Sent \<Rightarrow>
          if 0 < sem s then [s\<lparr>sem := sem s - 1, workers := (workers s)[i := Released]\<rparr>] else []
      | Released \<Rightarrow>
          if 0 < wg s then [s\<lparr>wg := wg s - 1, workers := (workers s)[i := Exited]\<rparr>] else []
      | _ \<Rightarrow> [])"

definition successors :: "nat \<Rightarrow> nat \<Rightarrow> (nat \<Rightarrow> ChunkResult) \<Rightarrow> sched \<Rightarrow> sched list" where
  "successors K N res s =
     main_steps K N s @ closer_steps s
       @ concat (map (worker_steps N res s) [0..<length (workers s)])"

text \<open>The number of worker bodies that have started and still hold their slot.\<close>

definition is_active :: "phase \<Rightarrow> bool" where
  "is_active p = (p = Working \<or> p = Sent)"

definition active :: "sched \<Rightarrow> nat" where
  "active s = length (filter is_active (workers s))"


section \<open>\<^verbatim>\<open>main\<close>\<close>

record flags =
  inputFile :: string
  modelName :: string
  outputFile :: string
  apiEndpoint :: string
  ollamaBaseURL :: string

text \<open>The world outside the process: \<^verbatim>\<open>os.Stat\<close> and \<^verbatim>\<open>os.Open\<close> of the input
  (\<open>None\<close> is an error), \<^verbatim>\<open>filepath.Dir\<close>, whether \<^verbatim>\<open>os.MkdirAll\<close>,
  \<^verbatim>\<open>os.WriteFile\<close> and the final \<^verbatim>\<open>os.Stat\<close> of the output succeed, and the
  network.\<close>

record env =
  fs_stat :: "string \<Rightarrow> nat option"
  fs_open :: "string \<Rightarrow> osfile option"
  path_Dir :: "string \<Rightarrow> string"
  fs_mkdir :: "string \<Rightarrow> bool"
  fs_write :: "string \<Rightarrow> bool"
  fs_restat :: "string \<Rightarrow> bool"
  network :: network

text \<open>What a run leaves behind: the exit code, whether the usage text was printed, the
  file written (path and content), the three numbers of the summary line, and the two
  operands \<^verbatim>\<open>fileSize\<close> and \<^verbatim>\<open>outputInfo.Size()\<close> of the division when the
  compression ratio is printed.\<close>

record outcome =
  exit_code :: nat
  usage :: bool
  written :: "(string \<times> string) option"
  summary :: "(int \<times> int \<times> int) option"
  ratio :: "(nat \<times> nat) option"

definition exit_usage :: outcome where
  "exit_usage = \<lparr>exit_code = 1, usage = True, written = None, summary = None, ratio = None\<rparr>"

text \<open>\<^verbatim>\<open>log.Fatalf\<close> prints and calls \<^verbatim>\<open>os.Exit(1)\<close>.\<close>

definition log_Fatalf :: "fatal \<Rightarrow> outcome" where
  "log_Fatalf e = \<lparr>exit_code = 1, usage = False, written = None, summary = None, ratio = None\<rparr>"

fun strings_Join :: "string list \<Rightarrow> string \<Rightarrow> string" where
  "strings_Join [] sep = []"
| "strings_Join [x] sep = x"
| "strings_Join (x # y # ys) sep = x @ sep @ strings_Join (y # ys) sep"

definition separator :: string where
  "separator = [CHR 0x0A, CHR 0x0A]"

text \<open>\<^verbatim>\<open>main\<close> up to the end of the chunking loop: either the process has exited
  (\<open>Inl\<close>), or it goes on with \<^verbatim>\<open>fileSize\<close> and \<^verbatim>\<open>chunks\<close>. \<open>None\<close> stands for
  a chunking loop that does not end.\<close>

definition preflight :: "env \<Rightarrow> flags \<Rightarrow> (outcome + nat \<times> string list) option" where
  "preflight e fl =
     (if inputFile fl = [] then Some (Inl exit_usage)
      else if apiEndpoint fl \<noteq> ''generate'' \<and> apiEndpoint fl \<noteq> ''chat'' then Some (Inl exit_usage)
      else
        (case fs_stat e (inputFile fl) of
           None \<Rightarrow> Some (Inl (log_Fatalf FatalStat))
         | Some fileSize \<Rightarrow>
             (case fs_open e (inputFile fl) of
                None \<Rightarrow> Some (Inl (log_Fatalf FatalOpen))
              | Some f \<Rightarrow>
                  (case chunker f of
                     None \<Rightarrow> None
                   | Some (Inl err) \<Rightarrow> Some (Inl (log_Fatalf err))
                   | Some (Inr chunks) \<Rightarrow> Some (Inr (fileSize, chunks))))))"

text \<open>\<^verbatim>\<open>main\<close> from \<^verbatim>\<open>strings.Join\<close> to its end.\<close>

definition report :: "env \<Rightarrow> flags \<Rightarrow> nat \<Rightarrow> nat \<Rightarrow> string list \<Rightarrow> nat \<Rightarrow> outcome" where
  "report e fl fileSize nchunks processed errors =
     (let combinedContent = strings_Join processed separator;
          outputDir = path_Dir e (outputFile fl)
      in if outputDir \<noteq> ''.'' \<and> \<not> fs_mkdir e outputDir then log_Fatalf FatalMkdir
         else if \<not> fs_write e (outputFile fl) then log_Fatalf FatalWrite
         else
           \<lparr>exit_code = 0, usage = False,
            written = Some (outputFile fl, combinedContent),
            summary = Some (int nchunks - int errors, int nchunks, int errors),
            ratio = (if fs_restat e (outputFile fl) then Some (fileSize, length combinedContent)
                     else None)\<rparr>)"

definition ollamaURL_of :: "flags \<Rightarrow> string" where
  "ollamaURL_of fl = ollamaBaseURL fl @ ''/'' @ apiEndpoint fl"

text \<open>The value worker \<open>i\<close> sends in a run with the given flags and chunks.\<close>

definition result_of :: "env \<Rightarrow> flags \<Rightarrow> string list \<Rightarrow> nat \<Rightarrow> ChunkResult" where
  "result_of e fl chunks i =
     fst (worker (network e) (ollamaURL_of fl) (modelName fl) (apiEndpoint fl) i (chunks ! i))"

text \<open>A run of \<^verbatim>\<open>main\<close>: it exits before the scheduler starts, or some interleaving
  of the goroutines takes the scheduler to \<open>Finished\<close> and the report follows.\<close>

inductive main_run :: "env \<Rightarrow> flags \<Rightarrow> outcome \<Rightarrow> bool" where
  early: "preflight e fl = Some (Inl out) \<Longrightarrow> main_run e fl out"
| full:
    "preflight e fl = Some (Inr (fileSize, chunks)) \<Longrightarrow>
     reachable maxConcurrentRequests (length chunks) (result_of e fl chunks) s \<Longrightarrow>
     pc s = Finished \<Longrightarrow>
     main_run e fl
       (report e fl fileSize (length chunks) (processedChunks s) (errorCount s))"


section \<open>Notions used in the properties\<close>

text \<open>What is still to be read, and a measure that every successful read decreases.\<close>

definition unread :: "reader \<Rightarrow> string" where
  "unread b = buf b @ concat (pending (rd b))"

definition weight :: "reader \<Rightarrow> nat" where
  "weight b = length (concat (pending (rd b))) + length (pending (rd b)) + length (buf b)"

text \<open>A line of a generate stream as the scan loop sees it: whether it decodes, the
  text it carries, whether it ends the stream. A line is open when it decodes and does
  not end the stream.\<close>

definition line_ok :: "json option \<Rightarrow> bool" where
  "line_ok l = (fst (unmarshalGenerate l) = None)"

definition line_text :: "json option \<Rightarrow> string" where
  "line_text l = Response (snd (unmarshalGenerate l))"

definition line_done :: "json option \<Rightarrow> bool" where
  "line_done l = Done (snd (unmarshalGenerate l))"

definition open_line :: "json option \<Rightarrow> bool" where
  "open_line l = (line_ok l \<and> \<not> line_done l)"

text \<open>Lookup by key in a JSON object, in the words of the specification: the value of
  the last member with that key.\<close>

fun last_member :: "string \<Rightarrow> (string \<times> json) list \<Rightarrow> json option" where
  "last_member k [] = None"
| "last_member k ((k', v) # kvs) =
     (case last_member k kvs of
        Some w \<Rightarrow> Some w
      | None \<Rightarrow> if k' = k then Some v else None)"

text \<open>The canonical shape of a chat response, in the words of the specification: an
  object whose members \<open>model\<close> and \<open>created_at\<close> are strings, whose member \<open>done\<close>
  is a boolean and whose member \<open>message\<close> is an object with strings for \<open>role\<close> and
  \<open>content\<close>. A member may be \<^verbatim>\<open>null\<close> or missing, other members are ignored, and
  a key names a member when it matches the name up to case. The content of the shape is
  the last string given for \<open>content\<close>.\<close>

fun string_or_null :: "json \<Rightarrow> bool" where
  "string_or_null (JString s) = True"
| "string_or_null JNull = True"
| "string_or_null _ = False"

fun bool_or_null :: "json \<Rightarrow> bool" where
  "bool_or_null (JBool b) = True"
| "bool_or_null JNull = True"
| "bool_or_null _ = False"

definition message_fields_ok :: "(string \<times> json) list \<Rightarrow> bool" where
  "message_fields_ok m =
     list_all (\<lambda>kv. if field_match ''role'' (fst kv) \<or> field_match ''content'' (fst kv)
                     then string_or_null (snd kv) else True) m"

fun message_ok :: "json \<Rightarrow> bool" where
  "message_ok (JObject m) = message_fields_ok m"
| "message_ok JNull = True"
| "message_ok _ = False"

definition completion_fields_ok :: "(string \<times> json) list \<Rightarrow> bool" where
  "completion_fields_ok kvs =
     list_all (\<lambda>kv. if field_match ''model'' (fst kv) \<or> field_match ''created_at'' (fst kv)
                     then string_or_null (snd kv)
                     else if field_match ''message'' (fst kv) then message_ok (snd kv)
                     else if field_match ''done'' (fst kv) then bool_or_null (snd kv)
                     else True) kvs"

fun content_text :: "string \<times> json \<Rightarrow> string list" where
  "content_text (k, JString s) = (if field_match ''content'' k then [s] else [])"
| "content_text _ = []"

fun message_text :: "string \<times> json \<Rightarrow> string list" where
  "message_text (k, JObject m) =
     (if field_match ''message'' k then concat (map content_text m) else [])"
| "message_text _ = []"

definition canonical_content :: "json option \<Rightarrow> string option" where
  "canonical_content doc =
     (case doc of
        Some (JObject kvs) \<Rightarrow>
          (let texts = concat (map message_text kvs)
           in if completion_fields_ok kvs \<and> texts \<noteq> [] \<and> last texts \<noteq> []
              then Some (last texts) else None)
      | _ \<Rightarrow> None)"

text \<open>\<open>message.content\<close> by key lookup, and the second tier of the chat parser: the
  body parsed as a generic map (every number of the body has to convert), then the
  lookup.\<close>

definition lookup_content :: "json option \<Rightarrow> string option" where
  "lookup_content doc =
     (case doc of
        Some (JObject kvs) \<Rightarrow>
          (case last_member ''message'' kvs of
             Some (JObject m) \<Rightarrow>
               (case last_member ''content'' m of Some (JString s) \<Rightarrow> Some s | _ \<Rightarrow> None)
           | _ \<Rightarrow> None)
      | _ \<Rightarrow> None)"

definition generic_content :: "json option \<Rightarrow> string option" where
  "generic_content doc =
     (case doc of
        Some j \<Rightarrow> if numbers_fit j then lookup_content doc else None
      | None \<Rightarrow> None)"

text \<open>The text joined from a list of contents with a separator between neighbours, and
  the error of attempt \<open>a\<close> of the worker for chunk \<open>i\<close>.\<close>

definition joined :: "string \<Rightarrow> string list \<Rightarrow> string" where
  "joined sep xs = (case xs of [] \<Rightarrow> [] | x # rest \<Rightarrow> x @ concat (map (\<lambda>y. sep @ y) rest))"

definition attempt_error :: "env \<Rightarrow> flags \<Rightarrow> string list \<Rightarrow> nat \<Rightarrow> nat \<Rightarrow> perror" where
  "attempt_error e fl chunks i a =
     projl (processChunk (network e i a) (ollamaURL_of fl) (modelName fl) (chunks ! i)
              (apiEndpoint fl))"

text \<open>A client that answers every request the same way, and a response with status 200
  whose body is read without error.\<close>

definition reply :: "http_result \<Rightarrow> http_client" where
  "reply r = (\<lambda>url req. r)"

definition ok_response :: "json option list \<Rightarrow> json option \<Rightarrow> http_response" where
  "ok_response ls body =
     \<lparr>StatusCode = 200, Lines = ls, ScanErr = False, Body = body, BodyText = [], ReadErr = False\<rparr>"

text \<open>The scheduler's bookkeeping. \<open>held pc\<close> is the slot the main goroutine has acquired
  for a worker it has not yet started, \<open>started N pc\<close> the number of workers it has
  started. A worker is unfinished between its \<^verbatim>\<open>go\<close> statement and its
  \<^verbatim>\<open>wg.Done()\<close>, and has sent once its result is in the channel or beyond.\<close>

fun held :: "main_pc \<Rightarrow> nat" where
  "held (Acquired i) = 1"
| "held _ = 0"

fun started :: "nat \<Rightarrow> main_pc \<Rightarrow> nat" where
  "started N (Loop i) = i"
| "started N (Acquired i) = i"
| "started N _ = N"

definition unfinished :: "phase \<Rightarrow> bool" where
  "unfinished p = (p = Working \<or> p = Sent \<or> p = Released)"

definition has_sent :: "phase \<Rightarrow> bool" where
  "has_sent p = (p = Sent \<or> p = Released \<or> p = Exited)"

text \<open>Invariants of the scheduler: the shape of the state (workers are started in index
  order), the accounting of semaphore and wait group, the values that have passed
  through the result channel (\<open>delivered\<close>: received or still buffered), the slots
  of \<^verbatim>\<open>processedChunks\<close> written so far, and what closing the channel and leaving
  the range loop presuppose.\<close>

definition shape_inv :: "nat \<Rightarrow> sched \<Rightarrow> bool" where
  "shape_inv N s =
     (length (workers s) = N \<and> length (processedChunks s) = N
      \<and> started N (pc s) \<le> N
      \<and> (case pc s of Acquired i \<Rightarrow> i < N | _ \<Rightarrow> True)
      \<and> (\<forall>j<N. (workers s ! j = Idle) = (started N (pc s) \<le> j)))"

definition slots_inv :: "nat \<Rightarrow> sched \<Rightarrow> bool" where
  "slots_inv K s =
     (sem s = active s + held (pc s) \<and> sem s \<le> K
      \<and> wg s = length (filter unfinished (workers s)) + held (pc s))"

definition delivered :: "sched \<Rightarrow> ChunkResult list" where
  "delivered s = received s @ results s"

definition chan_inv :: "nat \<Rightarrow> (nat \<Rightarrow> ChunkResult) \<Rightarrow> sched \<Rightarrow> bool" where
  "chan_inv N res s =
     (distinct (map Index (delivered s))
      \<and> (\<forall>r \<in> set (delivered s). r = res (Index r) \<and> Index r < N)
      \<and> Index ` set (delivered s) = {j. j < N \<and> has_sent (workers s ! j)})"

definition store_inv :: "nat \<Rightarrow> (nat \<Rightarrow> ChunkResult) \<Rightarrow> sched \<Rightarrow> bool" where
  "store_inv N res s =
     ((\<forall>j<N. processedChunks s ! j
               = (if j \<in> Index ` set (received s) then Content (res j) else []))
      \<and> errorCount s = length (filter (\<lambda>r. Error r \<noteq> None) (received s)))"

definition end_inv :: "sched \<Rightarrow> bool" where
  "end_inv s =
     ((closed s \<longrightarrow> wg s = 0 \<and> (pc s = Collect \<or> pc s = Finished \<or> pc s = Panicked))
      \<and> (pc s = Finished \<longrightarrow> results s = [] \<and> closed s))"

text \<open>A bound on the number of steps a run can still take: every step lowers it.\<close>

fun rank :: "phase \<Rightarrow> nat" where
  "rank Idle = 4"
| "rank Working = 3"
| "rank Sent = 2"
| "rank Released = 1"
| "rank Exited = 0"

fun pc_rank :: "nat \<Rightarrow> main_pc \<Rightarrow> nat" where
  "pc_rank N (Loop i) = 2 * (N - i) + 2"
| "pc_rank N (Acquired i) = 2 * (N - i) + 1"
| "pc_rank N Collect = 1"
| "pc_rank N Finished = 0"
| "pc_rank N Panicked = 0"

definition remaining :: "nat \<Rightarrow> sched \<Rightarrow> nat" where
  "remaining N s =
     2 * sum_list (map rank (workers s)) + length (results s) + pc_rank N (pc s)
       + (if closed s then 0 else 1)"

text \<open>A scheduler completes on every interleaving: no reachable state has panicked, every
  reachable state that is not \<open>Finished\<close> has a step, and every step lowers
  \<open>remaining\<close>.\<close>

definition always_completes :: "nat \<Rightarrow> nat \<Rightarrow> (nat \<Rightarrow> ChunkResult) \<Rightarrow> bool" where
  "always_completes K N res =
     (\<forall>s. reachable K N res s \<longrightarrow>
        pc s \<noteq> Panicked
        \<and> (pc s \<noteq> Finished \<longrightarrow> (\<exists>s'. step K N res s s'))
        \<and> (\<forall>s'. step K N res s s' \<longrightarrow> remaining N s' < remaining N s))"

text \<open>The output side of the file system works (\<^verbatim>\<open>os.MkdirAll\<close> when it is called,
  and \<^verbatim>\<open>os.WriteFile\<close>); the number of chunks whose result carries an error; and
  the outcome of a run that gets past the chunking loop, with the results taken in index
  order.\<close>

definition output_ok :: "env \<Rightarrow> flags \<Rightarrow> bool" where
  "output_ok e fl =
     ((path_Dir e (outputFile fl) = ''.'' \<or> fs_mkdir e (path_Dir e (outputFile fl)))
      \<and> fs_write e (outputFile fl))"

definition failed_chunks :: "env \<Rightarrow> flags \<Rightarrow> string list \<Rightarrow> nat" where
  "failed_chunks e fl chunks =
     length (filter (\<lambda>i. Error (result_of e fl chunks i) \<noteq> None) [0..<length chunks])"

definition final_outcome :: "env \<Rightarrow> flags \<Rightarrow> nat \<Rightarrow> string list \<Rightarrow> outcome" where
  "final_outcome e fl fileSize chunks =
     report e fl fileSize (length chunks)
       (map (\<lambda>i. Content (result_of e fl chunks i)) [0..<length chunks])
       (failed_chunks e fl chunks)"

text \<open>Concrete inputs for the examples: a network that answers every call the same way, the
  default flags with an input path, a file system in which everything succeeds and the
  input arrives in the given pieces, a last line of a generate stream, a response with
  status 500, networks that answer chunk 0 with \<open>A\<close>, chunk 1 with \<open>B\<close> and (the
  first of them) every other chunk with \<open>C\<close>, and a network that answers attempt \<open>a\<close>
  with status \<open>500 + a\<close>.\<close>

definition always :: "http_result \<Rightarrow> network" where
  "always r = (\<lambda>index attempt. reply r)"

definition demo_flags :: flags where
  "demo_flags =
     \<lparr>inputFile = ''book.txt'', modelName = ''llama3.2-vision:latest'', outputFile = ''llm.txt'',
      apiEndpoint = ''generate'', ollamaBaseURL = ''http://localhost:11434/api''\<rparr>"

definition demo_env :: "string list \<Rightarrow> network \<Rightarrow> env" where
  "demo_env pieces net =
     \<lparr>fs_stat = (\<lambda>path. Some (length (concat pieces))),
      fs_open = (\<lambda>path. Some \<lparr>pending = pieces, fails = False\<rparr>),
      path_Dir = (\<lambda>path. ''.''),
      fs_mkdir = (\<lambda>dir. True),
      fs_write = (\<lambda>path. True),
      fs_restat = (\<lambda>path. True),
      network = net\<rparr>"

definition done_line :: "string \<Rightarrow> json option" where
  "done_line t = Some (JObject [(''response'', JString t), (''done'', JBool True)])"

definition status_500 :: http_response where
  "status_500 =
     \<lparr>StatusCode = 500, Lines = [], ScanErr = False, Body = None,
      BodyText = ''internal error'', ReadErr = False\<rparr>"

definition three_answers :: network where
  "three_answers =
     (\<lambda>index attempt. reply (Responded
        (ok_response [done_line (if index = 0 then ''A'' else if index = 1 then ''B'' else ''C'')]
           None)))"

definition rising_status :: network where
  "rising_status =
     (\<lambda>index attempt. reply (Responded
        \<lparr>StatusCode = 500 + attempt, Lines = [], ScanErr = False, Body = None,
         BodyText = ''internal error'', ReadErr = False\<rparr>))"


section \<open>Properties of the chunker\<close>

lemma take_drop_take: "S \<le> bs \<Longrightarrow> take S x @ drop S (take bs x) @ drop bs x = x"
proof -
  assume a: "S \<le> bs"
  have "take S x = take S (take bs x)" using a by (simp add: min_def)
  then have "take S x @ drop S (take bs x) = take bs x" by (metis append_take_drop_id)
  then show ?thesis by (metis append_assoc append_take_drop_id)
qed

lemma bufio_Read_data:
  assumes "0 < S" "0 < bs" "bufio_Read bs S b = (RdData d, b')"
  shows "length d \<le> S \<and> unread b = d @ unread b' \<and> weight b' < weight b
         \<and> fails (rd b') = fails (rd b)"
  using assms
  by (auto simp: bufio_Read_def unread_def weight_def take_drop_take
           split: if_splits list.splits prod.splits rd_result.splits)

lemma bufio_Read_eof:
  assumes "0 < S" "bufio_Read bs S b = (RdEOF, b')"
  shows "unread b = [] \<and> \<not> fails (rd b)"
  using assms
  by (auto simp: bufio_Read_def unread_def
           split: if_splits list.splits prod.splits rd_result.splits)

lemma bufio_Read_err:
  assumes "0 < S" "bufio_Read bs S b = (RdErr, b')"
  shows "fails (rd b)"
  using assms
  by (auto simp: bufio_Read_def split: if_splits list.splits prod.splits rd_result.splits)

lemma read_loop_total:
  assumes "0 < S" "0 < bs" "\<not> fails (rd b)"
  shows "\<exists>cs. read_loop bs S b chunks = Some (Inr (chunks @ cs))
              \<and> list_all (\<lambda>c. length c \<le> S) cs \<and> concat cs = unread b"
  using assms(3)
proof (induction "weight b" arbitrary: b chunks rule: less_induct)
  case less
  obtain r b' where rb: "bufio_Read bs S b = (r, b')"
    by (cases "bufio_Read bs S b")
  show ?case
  proof (cases r)
    case RdEOF
    with rb bufio_Read_eof [OF assms(1)] have "unread b = []" by blast
    moreover have "read_loop bs S b chunks = Some (Inr chunks)"
      using rb RdEOF by (subst read_loop.simps) simp
    ultimately show ?thesis by simp
  next
    case RdErr
    with rb bufio_Read_err [OF assms(1)] less.prems show ?thesis by blast
  next
    case (RdData d)
    with rb bufio_Read_data [OF assms(1,2)] have d: "length d \<le> S" "unread b = d @ unread b'"
      "weight b' < weight b" "fails (rd b') = fails (rd b)" by blast+
    from less.hyps [OF d(3), of "chunks @ [d]"] d(4) less.prems
    obtain cs where cs: "read_loop bs S b' (chunks @ [d]) = Some (Inr ((chunks @ [d]) @ cs))"
      "list_all (\<lambda>c. length c \<le> S) cs" "concat cs = unread b'" by auto
    have "read_loop bs S b chunks = read_loop bs S b' (chunks @ [d])"
      using rb RdData by (subst read_loop.simps) simp
    with cs d show ?thesis by (intro exI [of _ "d # cs"]) simp
  qed
qed

lemma read_loop_fails:
  assumes "0 < S" "0 < bs" "fails (rd b)"
  shows "read_loop bs S b chunks = Some (Inl FatalRead)"
  using assms(3)
proof (induction "weight b" arbitrary: b chunks rule: less_induct)
  case less
  obtain r b' where rb: "bufio_Read bs S b = (r, b')"
    by (cases "bufio_Read bs S b")
  show ?case
  proof (cases r)
    case RdEOF
    with rb bufio_Read_eof [OF assms(1)] less.prems show ?thesis by blast
  next
    case RdErr
    with rb show ?thesis by (subst read_loop.simps) simp
  next
    case (RdData d)
    with rb bufio_Read_data [OF assms(1,2)] have d: "weight b' < weight b"
      "fails (rd b') = fails (rd b)" by blast+
    have "read_loop bs S b chunks = read_loop bs S b' (chunks @ [d])"
      using rb RdData by (subst read_loop.simps) simp
    with less.hyps [OF d(1), of "chunks @ [d]"] d(2) less.prems show ?thesis by simp
  qed
qed

lemma chunker_total:
  assumes "\<not> fails f"
  shows "\<exists>cs. chunker f = Some (Inr cs) \<and> list_all (\<lambda>c. length c \<le> chunkSize) cs
              \<and> concat cs = concat (pending f)"
proof -
  have "0 < chunkSize" "0 < defaultBufSize"
    by (simp_all add: chunkSize_def defaultBufSize_def)
  from read_loop_total [OF this, of "\<lparr>rd = f, buf = []\<rparr>" "[]"] assms
  show ?thesis by (simp add: chunker_def unread_def)
qed

text \<open>C2. For every input byte stream, in whatever pieces the file delivers it, and for
  every maximum chunk size \<open>S > 0\<close> (and buffer size \<open>bs > 0\<close>), the chunking loop ends
  with a finite list of chunks, each of length at most \<open>S\<close>, whose concatenation in
  order is the input, byte for byte. The chunker of the program is the instance
  \<open>S = chunkSize\<close>, \<open>bs = defaultBufSize\<close>.\<close>

theorem chunker_roundtrip:
  assumes "0 < S" and "0 < bs" and "\<not> fails f"
  shows "(\<exists>cs. read_loop bs S \<lparr>rd = f, buf = []\<rparr> [] = Some (Inr cs)
               \<and> list_all (\<lambda>c. length c \<le> S) cs \<and> concat cs = concat (pending f))
         \<and> (\<exists>cs. chunker f = Some (Inr cs)
               \<and> list_all (\<lambda>c. length c \<le> chunkSize) cs \<and> concat cs = concat (pending f))"
proof
  from read_loop_total [OF assms(1,2), of "\<lparr>rd = f, buf = []\<rparr>" "[]"] assms(3)
  show "\<exists>cs. read_loop bs S \<lparr>rd = f, buf = []\<rparr> [] = Some (Inr cs)
             \<and> list_all (\<lambda>c. length c \<le> S) cs \<and> concat cs = concat (pending f)"
    by (simp add: unread_def)
  from chunker_total [OF assms(3)]
  show "\<exists>cs. chunker f = Some (Inr cs)
             \<and> list_all (\<lambda>c. length c \<le> chunkSize) cs \<and> concat cs = concat (pending f)" .
qed

theorem chunker_roundtrip_witness:
  "read_loop 4 3 \<lparr>rd = \<lparr>pending = [''abcdefg'', ''hij''], fails = False\<rparr>, buf = []\<rparr> []
     = Some (Inr [''abc'', ''d'', ''efg'', ''hij''])
   \<and> (\<exists>cs. read_loop 4 3 \<lparr>rd = \<lparr>pending = [''abcdefg'', ''hij''], fails = False\<rparr>, buf = []\<rparr> []
              = Some (Inr cs)
            \<and> list_all (\<lambda>c. length c \<le> 3) cs \<and> concat cs = ''abcdefghij'')
   \<and> (\<exists>cs. chunker \<lparr>pending = [''abcdefg'', ''hij''], fails = False\<rparr> = Some (Inr cs)
            \<and> list_all (\<lambda>c. length c \<le> chunkSize) cs \<and> concat cs = ''abcdefghij'')"
proof -
  have e: "read_loop 4 3 \<lparr>rd = \<lparr>pending = [''abcdefg'', ''hij''], fails = False\<rparr>, buf = []\<rparr> []
           = Some (Inr [''abc'', ''d'', ''efg'', ''hij''])"
    by code_simp
  have h: "(0::nat) < 3" "(0::nat) < 4" "\<not> fails \<lparr>pending = [''abcdefg'', ''hij''], fails = False\<rparr>"
    by simp_all
  from chunker_roundtrip [OF h] e show ?thesis by simp
qed


section \<open>Properties of the response parser\<close>

lemma scan_loop_open:
  "list_all open_line pre \<Longrightarrow>
   scan_loop (pre @ rest) acc = scan_loop rest (acc @ concat (map line_text pre))"
  by (induction pre arbitrary: acc)
     (auto simp: open_line_def line_ok_def line_text_def line_done_def split: prod.splits option.splits)

lemma scan_loop_done:
  "line_ok d \<Longrightarrow> line_done d \<Longrightarrow> scan_loop (d # post) acc = Inr (acc @ line_text d)"
  by (auto simp: line_ok_def line_text_def line_done_def split: prod.splits option.splits)

lemma scan_loop_bad:
  "\<not> line_ok bad \<Longrightarrow> scan_loop (bad # post) acc = Inl ErrParseLine"
  by (auto simp: line_ok_def split: prod.splits option.splits)

lemma processChunk_generate:
  assumes "client url (GenerateRequest model (prompt content)) = Responded resp"
    and "StatusCode resp = 200"
  shows "processChunk client url model content ''generate'' = parse_generate resp"
  using assms by (simp add: processChunk_def)

lemma processChunk_chat:
  assumes "client url (ChatRequest model [(''user'', prompt content)]) = Responded resp"
    and "StatusCode resp = 200"
  shows "processChunk client url model content ''chat'' = parse_chat resp"
  using assms by (simp add: processChunk_def)

text \<open>C5. In generate mode (status 200, stream read without error) the parser
  concatenates the \<open>response\<close> texts of the lines in line order: over all lines when
  every line decodes and none has \<open>done\<close> set; up to and including the first line with
  \<open>done\<close> set, whatever follows it; and a line that does not decode before that point
  makes the call fail with a parse error.\<close>

theorem generate_accumulates:
  assumes "client url (GenerateRequest model (prompt content)) = Responded resp"
    and "StatusCode resp = 200" and "\<not> ScanErr resp"
  shows "(list_all open_line (Lines resp) \<longrightarrow>
            processChunk client url model content ''generate''
              = Inr (concat (map line_text (Lines resp))))
       \<and> (Lines resp = pre @ d # post \<and> list_all open_line pre \<and> line_ok d \<and> line_done d \<longrightarrow>
            processChunk client url model content ''generate''
              = Inr (concat (map line_text (pre @ [d]))))
       \<and> (Lines resp = pre @ bad # post \<and> list_all open_line pre \<and> \<not> line_ok bad \<longrightarrow>
            processChunk client url model content ''generate'' = Inl ErrParseLine)"
proof (intro conjI impI)
  have pc: "processChunk client url model content ''generate'' = parse_generate resp"
    using assms(1,2) by (rule processChunk_generate)
  { assume "list_all open_line (Lines resp)"
    from scan_loop_open [OF this, of "[]" "[]"]
    show "processChunk client url model content ''generate''
            = Inr (concat (map line_text (Lines resp)))"
      using assms(3) by (simp add: pc parse_generate_def) }
  { assume a: "Lines resp = pre @ d # post \<and> list_all open_line pre \<and> line_ok d \<and> line_done d"
    then have "scan_loop (Lines resp) [] = Inr (concat (map line_text pre) @ line_text d)"
      using scan_loop_open [of pre "d # post" "[]"] scan_loop_done [of d post] by simp
    then show "processChunk client url model content ''generate''
            = Inr (concat (map line_text (pre @ [d])))"
      using assms(3) by (simp add: pc parse_generate_def) }
  { assume a: "Lines resp = pre @ bad # post \<and> list_all open_line pre \<and> \<not> line_ok bad"
    then have "scan_loop (Lines resp) [] = Inl ErrParseLine"
      using scan_loop_open [of pre "bad # post" "[]"] scan_loop_bad [of bad post] by simp
    then show "processChunk client url model content ''generate'' = Inl ErrParseLine"
      by (simp add: pc parse_generate_def) }
qed

theorem generate_accumulates_witness:
  "processChunk
     (reply (Responded (ok_response
        [Some (JObject [(''response'', JString ''ab''), (''done'', JBool False)]),
         Some (JObject [(''response'', JString ''cd''), (''done'', JBool True)]),
         Some (JObject [(''response'', JString ''ef''), (''done'', JBool False)])] None)))
     ''http://localhost:11434/api/generate'' ''m'' ''text'' ''generate'' = Inr ''abcd''
   \<and> processChunk
     (reply (Responded (ok_response
        [Some (JObject [(''response'', JString ''ab''), (''done'', JBool False)]),
         Some (JObject [(''response'', JString ''cd''), (''done'', JBool False)])] None)))
     ''http://localhost:11434/api/generate'' ''m'' ''text'' ''generate'' = Inr ''abcd''
   \<and> processChunk
     (reply (Responded (ok_response
        [Some (JObject [(''response'', JString ''ab''), (''done'', JBool False)]),
         None,
         Some (JObject [(''response'', JString ''cd''), (''done'', JBool True)])] None)))
     ''http://localhost:11434/api/generate'' ''m'' ''text'' ''generate'' = Inl ErrParseLine"
proof -
  let ?ab = "Some (JObject [(''response'', JString ''ab''), (''done'', JBool False)])"
  let ?cd = "Some (JObject [(''response'', JString ''cd''), (''done'', JBool True)])"
  let ?cd' = "Some (JObject [(''response'', JString ''cd''), (''done'', JBool False)])"
  let ?ef = "Some (JObject [(''response'', JString ''ef''), (''done'', JBool False)])"
  have ev: "open_line ?ab" "open_line ?cd'" "line_ok ?cd" "line_done ?cd" "\<not> line_ok None"
    "line_text ?ab = ''ab''" "line_text ?cd = ''cd''" "line_text ?cd' = ''cd''"
    by code_simp+
  have a: "processChunk (reply (Responded (ok_response [?ab, ?cd, ?ef] None)))
       ''http://localhost:11434/api/generate'' ''m'' ''text'' ''generate'' = Inr ''abcd''"
    using generate_accumulates [of "reply (Responded (ok_response [?ab, ?cd, ?ef] None))"
        "''http://localhost:11434/api/generate''" "''m''" "''text''"
        "ok_response [?ab, ?cd, ?ef] None" "[?ab]" "?cd" "[?ef]"] ev
    by (simp add: reply_def ok_response_def)
  have b: "processChunk (reply (Responded (ok_response [?ab, ?cd'] None)))
       ''http://localhost:11434/api/generate'' ''m'' ''text'' ''generate'' = Inr ''abcd''"
    using generate_accumulates [of "reply (Responded (ok_response [?ab, ?cd'] None))"
        "''http://localhost:11434/api/generate''" "''m''" "''text''"
        "ok_response [?ab, ?cd'] None"] ev
    by (simp add: reply_def ok_response_def)
  have c: "processChunk (reply (Responded (ok_response [?ab, None, ?cd] None)))
       ''http://localhost:11434/api/generate'' ''m'' ''text'' ''generate'' = Inl ErrParseLine"
    using generate_accumulates [of "reply (Responded (ok_response [?ab, None, ?cd] None))"
        "''http://localhost:11434/api/generate''" "''m''" "''text''"
        "ok_response [?ab, None, ?cd] None" "[?ab]" _ "[?cd]" "None"] ev
    by (simp add: reply_def ok_response_def)
  from a b c show ?thesis by blast
qed

text \<open>The typed decoding of a chat response refines the canonical shape: each member it
  stores is checked as the shape demands, and the content it ends with is the last string
  given for \<open>content\<close>.\<close>

lemma set_string_fits:
  "set_string v old = (e, x) \<Longrightarrow>
     (e = None) = string_or_null v \<and> x = (case v of JString s \<Rightarrow> s | _ \<Rightarrow> old)"
  by (cases v) auto

lemma set_bool_fits: "set_bool v old = (e, x) \<Longrightarrow> (e = None) = bool_or_null v"
  by (cases v) auto

lemma first_err_None: "(first_err e e' = None) = (e = None \<and> e' = None)"
  by (cases e) (simp_all add: first_err_def)

lemma fold_names_distinct:
  "foldName ''role'' \<noteq> foldName ''content''"
  "foldName ''model'' \<noteq> foldName ''message''"
  "foldName ''created_at'' \<noteq> foldName ''message''"
  by code_simp+

lemma field_match_excl:
  "field_match ''role'' k \<Longrightarrow> \<not> field_match ''content'' k"
  "field_match ''model'' k \<Longrightarrow> \<not> field_match ''message'' k"
  "field_match ''created_at'' k \<Longrightarrow> \<not> field_match ''message'' k"
  using fold_names_distinct by (auto simp: field_match_def)

lemma message_member_step:
  assumes "message_member kv (e, r) = (e', r')"
  shows "(e' = None) = (e = None \<and>
            (if field_match ''role'' (fst kv) \<or> field_match ''content'' (fst kv)
             then string_or_null (snd kv) else True))"
    and "ChatMessage.Content r' = (case content_text kv of [] \<Rightarrow> ChatMessage.Content r | s # ss \<Rightarrow> s)"
proof -
  obtain k v where kv: "kv = (k, v)" by (cases kv)
  obtain e1 x where s: "set_string v (Role r) = (e1, x)" by (cases "set_string v (Role r)")
  obtain e2 y where c: "set_string v (ChatMessage.Content r) = (e2, y)"
    by (cases "set_string v (ChatMessage.Content r)")
  note f1 = set_string_fits [OF s] and f2 = set_string_fits [OF c]
  show "(e' = None) = (e = None \<and>
            (if field_match ''role'' (fst kv) \<or> field_match ''content'' (fst kv)
             then string_or_null (snd kv) else True))"
    using assms kv s c f1 f2
    by (auto simp: message_member_def first_err_None split: if_splits)
  show "ChatMessage.Content r' = (case content_text kv of [] \<Rightarrow> ChatMessage.Content r | s # ss \<Rightarrow> s)"
    using assms kv s c f1 f2
    by (cases v) (auto simp: message_member_def field_match_excl split: if_splits)
qed

lemma message_fold:
  "foldl (\<lambda>acc kv. message_member kv acc) (e, r) m = (e', r') \<Longrightarrow>
     (e' = None) = (e = None \<and> message_fields_ok m)
     \<and> ChatMessage.Content r'
         = (if concat (map content_text m) = [] then ChatMessage.Content r
            else last (concat (map content_text m)))"
proof (induction m arbitrary: e r)
  case Nil
  then show ?case by (simp add: message_fields_ok_def)
next
  case (Cons kv m)
  obtain e1 r1 where st: "message_member kv (e, r) = (e1, r1)"
    by (cases "message_member kv (e, r)")
  from Cons.prems st have "foldl (\<lambda>acc kv. message_member kv acc) (e1, r1) m = (e', r')"
    by simp
  note ih = Cons.IH [OF this]
  note s1 = message_member_step [OF st]
  have len: "length (content_text kv) \<le> 1"
    by (cases kv rule: content_text.cases) simp_all
  show ?case
  proof (cases "content_text kv")
    case Nil
    with ih s1 show ?thesis by (simp add: message_fields_ok_def)
  next
    case (Cons t ts)
    with len have ts: "ts = []" by simp
    with Cons ih s1 show ?thesis by (simp add: message_fields_ok_def)
  qed
qed

lemma set_message_fits:
  assumes "set_message v old = (e, x)"
  shows "(e = None) = message_ok v"
    and "field_match ''message'' k \<Longrightarrow>
         ChatMessage.Content x
           = (if message_text (k, v) = [] then ChatMessage.Content old else last (message_text (k, v)))"
proof -
  show "(e = None) = message_ok v"
    using assms message_fold [of None old _ e x] by (cases v) auto
  show "ChatMessage.Content x
           = (if message_text (k, v) = [] then ChatMessage.Content old else last (message_text (k, v)))"
    if "field_match ''message'' k"
    using assms that message_fold [of None old _ e x] by (cases v) auto
qed

lemma completion_member_step:
  assumes "completion_member kv (e, r) = (e', r')"
  shows "(e' = None) = (e = None \<and>
            (if field_match ''model'' (fst kv) \<or> field_match ''created_at'' (fst kv)
             then string_or_null (snd kv)
             else if field_match ''message'' (fst kv) then message_ok (snd kv)
             else if field_match ''done'' (fst kv) then bool_or_null (snd kv)
             else True))"
    and "ChatMessage.Content (Message r')
           = (if message_text kv = [] then ChatMessage.Content (Message r) else last (message_text kv))"
proof -
  obtain k v where kv: "kv = (k, v)" by (cases kv)
  obtain e1 x1 where a: "set_string v (Model r) = (e1, x1)" by (cases "set_string v (Model r)")
  obtain e2 x2 where b: "set_string v (CreatedAt r) = (e2, x2)"
    by (cases "set_string v (CreatedAt r)")
  obtain e3 x3 where c: "set_message v (Message r) = (e3, x3)"
    by (cases "set_message v (Message r)")
  obtain e4 x4 where d: "set_bool v (ChatDone r) = (e4, x4)" by (cases "set_bool v (ChatDone r)")
  note f = set_string_fits [OF a] set_string_fits [OF b] set_message_fits(1) [OF c]
    set_bool_fits [OF d]
  show "(e' = None) = (e = None \<and>
            (if field_match ''model'' (fst kv) \<or> field_match ''created_at'' (fst kv)
             then string_or_null (snd kv)
             else if field_match ''message'' (fst kv) then message_ok (snd kv)
             else if field_match ''done'' (fst kv) then bool_or_null (snd kv)
             else True))"
    using assms kv a b c d f
    by (auto simp: completion_member_def first_err_None split: if_splits)
  have nm: "message_text kv = []" if "\<not> field_match ''message'' k"
    using that kv by (cases v) simp_all
  show "ChatMessage.Content (Message r')
           = (if message_text kv = [] then ChatMessage.Content (Message r) else last (message_text kv))"
  proof (cases "field_match ''message'' k")
    case True
    then have "\<not> field_match ''model'' k" "\<not> field_match ''created_at'' k"
      using field_match_excl by blast+
    with True assms kv c set_message_fits(2) [OF c True] show ?thesis
      by (auto simp: completion_member_def)
  next
    case False
    with assms kv a b d nm show ?thesis
      by (auto simp: completion_member_def split: if_splits)
  qed
qed

lemma completion_fold:
  "foldl (\<lambda>acc kv. completion_member kv acc) (e, r) kvs = (e', r') \<Longrightarrow>
     (e' = None) = (e = None \<and> completion_fields_ok kvs)
     \<and> ChatMessage.Content (Message r')
         = (if concat (map message_text kvs) = [] then ChatMessage.Content (Message r)
            else last (concat (map message_text kvs)))"
proof (induction kvs arbitrary: e r)
  case Nil
  then show ?case by (simp add: completion_fields_ok_def)
next
  case (Cons kv kvs)
  obtain e1 r1 where st: "completion_member kv (e, r) = (e1, r1)"
    by (cases "completion_member kv (e, r)")
  from Cons.prems st have "foldl (\<lambda>acc kv. completion_member kv acc) (e1, r1) kvs = (e', r')"
    by simp
  note ih = Cons.IH [OF this]
  note s1 = completion_member_step [OF st]
  show ?case
    using ih s1 by (auto simp: completion_fields_ok_def)
qed

lemma canonical_content_decoder:
  "canonical_content doc =
     (case unmarshalCompletion doc of
        (None, r) \<Rightarrow>
          if ChatMessage.Content (Message r) = [] then None
          else Some (ChatMessage.Content (Message r))
      | (Some e, r) \<Rightarrow> None)"
proof (cases doc)
  case None
  then show ?thesis by (simp add: canonical_content_def unmarshalCompletion_def)
next
  case (Some j)
  show ?thesis
  proof (cases j)
    case (JObject kvs)
    let ?zero = "\<lparr>Model = [], CreatedAt = [],
                  Message = \<lparr>Role = [], Content = []\<rparr>, ChatDone = False\<rparr>"
    obtain e' r' where f: "foldl (\<lambda>acc kv. completion_member kv acc) (None, ?zero) kvs = (e', r')"
      by (cases "foldl (\<lambda>acc kv. completion_member kv acc) (None, ?zero) kvs")
    from completion_fold [OF f] Some JObject f show ?thesis
      by (cases e') (auto simp: canonical_content_def unmarshalCompletion_def Let_def)
  qed (use Some in \<open>simp_all add: canonical_content_def unmarshalCompletion_def\<close>)
qed

lemma map_of_rev_last_member: "map_of (rev kvs) k = last_member k kvs"
  by (induction kvs) (auto simp: map_add_def split: option.splits)

lemma generic_lookup:
  "(case unmarshalMap doc of
      (Some err', result) \<Rightarrow> None
    | (None, result) \<Rightarrow>
        (case as_map (result ''message'') of
           Some message \<Rightarrow> as_string (message ''content'')
         | None \<Rightarrow> None)) = generic_content doc"
proof (cases doc)
  case None
  then show ?thesis by (simp add: unmarshalMap_def generic_content_def)
next
  case (Some j)
  then show ?thesis
    by (cases j)
       (auto simp: unmarshalMap_def generic_content_def lookup_content_def as_map_def
          as_string_def map_of_rev_last_member split: option.splits json.splits)
qed

lemma parse_chat_eq:
  assumes "\<not> ReadErr resp"
  shows "parse_chat resp =
     (case canonical_content (Body resp) of
        Some t \<Rightarrow> Inr t
      | None \<Rightarrow>
          (case generic_content (Body resp) of
             Some t \<Rightarrow> Inr t
           | None \<Rightarrow>
               if fst (unmarshalMap (Body resp)) \<noteq> None then Inl ErrParseChat
               else Inl (ErrExtract (BodyText resp))))"
proof -
  obtain err chatResp where u: "unmarshalCompletion (Body resp) = (err, chatResp)"
    by (cases "unmarshalCompletion (Body resp)")
  obtain err' result where m: "unmarshalMap (Body resp) = (err', result)"
    by (cases "unmarshalMap (Body resp)")
  have g: "generic_content (Body resp) =
        (case err' of Some x \<Rightarrow> None
         | None \<Rightarrow> (case as_map (result ''message'') of
                      Some message \<Rightarrow> as_string (message ''content'')
                    | None \<Rightarrow> None))"
    using generic_lookup [of "Body resp"] m by simp
  show ?thesis
    using assms u m
    by (simp add: parse_chat_def canonical_content_decoder g split: option.splits)
qed

lemma parse_chat_tiers:
  assumes "\<not> ReadErr resp"
  shows "(canonical_content (Body resp) = Some t \<longrightarrow> parse_chat resp = Inr t)
       \<and> (canonical_content (Body resp) = None \<and> generic_content (Body resp) = Some t \<longrightarrow>
            parse_chat resp = Inr t)
       \<and> (isl (parse_chat resp) \<longleftrightarrow>
            canonical_content (Body resp) = None \<and> generic_content (Body resp) = None)"
  by (simp add: parse_chat_eq [OF assms] split: option.splits)

lemma field_match_chat:
  "field_match ''message'' ''message''" "\<not> field_match ''model'' ''message''"
  "\<not> field_match ''created_at'' ''message''"
  "field_match ''role'' ''role''" "field_match ''content'' ''content''"
  "\<not> field_match ''role'' ''content''" "\<not> field_match ''content'' ''role''"
  by code_simp+

lemma canonical_shape:
  "canonical_content (Some (JObject [(''message'', JObject [(''role'', JString r), (''content'', JString t)])]))
     = (if t = [] then None else Some t)"
  by (simp add: canonical_content_def completion_fields_ok_def message_fields_ok_def
      field_match_chat)

text \<open>C6. In chat mode (status 200, body read without error): when the body has the
  canonical shape with a non-empty content, that content is returned; otherwise, when
  the body parses as a generic map and key lookup of \<open>message.content\<close> finds a
  string, that string is returned; and an error is returned exactly when both tiers fail.
  A body that consists of the canonical shape with non-empty content \<open>t\<close> yields
  \<open>t\<close>.\<close>

theorem chat_two_tiers:
  assumes "client url (ChatRequest model [(''user'', prompt content)]) = Responded resp"
    and "StatusCode resp = 200" and "\<not> ReadErr resp"
  shows "(canonical_content (Body resp) = Some t \<longrightarrow>
            processChunk client url model content ''chat'' = Inr t)
       \<and> (canonical_content (Body resp) = None \<and> generic_content (Body resp) = Some t \<longrightarrow>
            processChunk client url model content ''chat'' = Inr t)
       \<and> (isl (processChunk client url model content ''chat'') \<longleftrightarrow>
            canonical_content (Body resp) = None \<and> generic_content (Body resp) = None)
       \<and> (Body resp = Some (JObject [(''message'',
                 JObject [(''role'', JString r), (''content'', JString t)])]) \<and> t \<noteq> [] \<longrightarrow>
            processChunk client url model content ''chat'' = Inr t)"
proof -
  have pc: "processChunk client url model content ''chat'' = parse_chat resp"
    using assms(1,2) by (rule processChunk_chat)
  have "Body resp = Some (JObject [(''message'',
            JObject [(''role'', JString r), (''content'', JString t)])]) \<and> t \<noteq> [] \<longrightarrow>
        canonical_content (Body resp) = Some t"
    by (simp add: canonical_shape)
  with parse_chat_tiers [OF assms(3), of t] show ?thesis
    unfolding pc by blast
qed

theorem chat_two_tiers_witness:
  "processChunk
     (reply (Responded (ok_response []
        (Some (JObject [(''message'',
           JObject [(''role'', JString ''assistant''), (''content'', JString ''hello'')])])))))
     ''http://localhost:11434/api/chat'' ''m'' ''text'' ''chat'' = Inr ''hello''
   \<and> processChunk
     (reply (Responded (ok_response []
        (Some (JObject [(''message'', JObject [(''content'', JString ''x'')]),
                        (''done'', JString ''no'')])))))
     ''http://localhost:11434/api/chat'' ''m'' ''text'' ''chat'' = Inr ''x''
   \<and> processChunk
     (reply (Responded (ok_response []
        (Some (JObject [(''MESSAGE'', JObject [(''Content'', JString ''hi'')])])))))
     ''http://localhost:11434/api/chat'' ''m'' ''text'' ''chat'' = Inr ''hi''
   \<and> processChunk
     (reply (Responded (ok_response []
        (Some (JObject [(''message'', JObject [(''content'', JString ''a'')]),
                        (''message'', JObject [(''role'', JString ''r'')])])))))
     ''http://localhost:11434/api/chat'' ''m'' ''text'' ''chat'' = Inr ''a''
   \<and> isl (processChunk
     (reply (Responded (ok_response [] (Some (JObject [(''message'', JString ''x'')])))))
     ''http://localhost:11434/api/chat'' ''m'' ''text'' ''chat'')
   \<and> isl (processChunk
     (reply (Responded (ok_response []
        (Some (JObject [(''message'', JObject [(''content'', JString ''x'')]),
                        (''done'', JString ''no''), (''n'', JNumber ''1e400'' False)])))))
     ''http://localhost:11434/api/chat'' ''m'' ''text'' ''chat'')"
proof -
  let ?u = "''http://localhost:11434/api/chat''"
  let ?b1 = "Some (JObject [(''message'',
           JObject [(''role'', JString ''assistant''), (''content'', JString ''hello'')])])"
  let ?b2 = "Some (JObject [(''message'', JObject [(''content'', JString ''x'')]),
                        (''done'', JString ''no'')])"
  let ?b3 = "Some (JObject [(''MESSAGE'', JObject [(''Content'', JString ''hi'')])])"
  let ?b4 = "Some (JObject [(''message'', JObject [(''content'', JString ''a'')]),
                        (''message'', JObject [(''role'', JString ''r'')])])"
  let ?b5 = "Some (JObject [(''message'', JString ''x'')])"
  let ?b6 = "Some (JObject [(''message'', JObject [(''content'', JString ''x'')]),
                        (''done'', JString ''no''), (''n'', JNumber ''1e400'' False)])"
  have ev: "canonical_content ?b2 = None" "generic_content ?b2 = Some ''x''"
    "canonical_content ?b3 = Some ''hi''" "canonical_content ?b4 = Some ''a''"
    "canonical_content ?b5 = None" "generic_content ?b5 = None"
    "canonical_content ?b6 = None" "generic_content ?b6 = None"
    by code_simp+
  have a: "processChunk (reply (Responded (ok_response [] ?b1))) ?u ''m'' ''text'' ''chat''
        = Inr ''hello''"
    using chat_two_tiers [of "reply (Responded (ok_response [] ?b1))" ?u "''m''" "''text''"
        "ok_response [] ?b1" "''hello''" "''assistant''"]
    by (simp add: reply_def ok_response_def)
  have b: "processChunk (reply (Responded (ok_response [] ?b2))) ?u ''m'' ''text'' ''chat''
        = Inr ''x''"
    using chat_two_tiers [of "reply (Responded (ok_response [] ?b2))" ?u "''m''" "''text''"
        "ok_response [] ?b2" "''x''"] ev
    by (simp add: reply_def ok_response_def)
  have c: "processChunk (reply (Responded (ok_response [] ?b3))) ?u ''m'' ''text'' ''chat''
        = Inr ''hi''"
    using chat_two_tiers [of "reply (Responded (ok_response [] ?b3))" ?u "''m''" "''text''"
        "ok_response [] ?b3" "''hi''"] ev
    by (simp add: reply_def ok_response_def)
  have d: "processChunk (reply (Responded (ok_response [] ?b4))) ?u ''m'' ''text'' ''chat''
        = Inr ''a''"
    using chat_two_tiers [of "reply (Responded (ok_response [] ?b4))" ?u "''m''" "''text''"
        "ok_response [] ?b4" "''a''"] ev
    by (simp add: reply_def ok_response_def)
  have e: "isl (processChunk (reply (Responded (ok_response [] ?b5))) ?u ''m'' ''text'' ''chat'')"
    using chat_two_tiers [of "reply (Responded (ok_response [] ?b5))" ?u "''m''" "''text''"
        "ok_response [] ?b5"] ev
    by (simp add: reply_def ok_response_def)
  have f: "isl (processChunk (reply (Responded (ok_response [] ?b6))) ?u ''m'' ''text'' ''chat'')"
    using chat_two_tiers [of "reply (Responded (ok_response [] ?b6))" ?u "''m''" "''text''"
        "ok_response [] ?b6"] ev
    by (simp add: reply_def ok_response_def)
  from a b c d e f show ?thesis by blast
qed

text \<open>C9, as stated, fails in two ways. The typed decoding matches keys without regard to
  case, so a body whose \<open>message\<close> object has \<open>content\<close> empty and a second member
  \<open>Content\<close> takes the first tier, and the text of that member is returned. And a body
  with an empty \<open>message.content\<close> and, elsewhere, a number out of the range of
  \<^verbatim>\<open>float64\<close> does not parse as a generic map: the call returns the error
  \<^verbatim>\<open>error parsing chat response\<close>.\<close>

theorem empty_content_counterexample:
  "lookup_content (Some (JObject [(''message'',
       JObject [(''content'', JString []), (''Content'', JString ''x'')])])) = Some []
   \<and> processChunk
     (reply (Responded (ok_response []
        (Some (JObject [(''message'',
           JObject [(''content'', JString []), (''Content'', JString ''x'')])])))))
     ''http://localhost:11434/api/chat'' ''m'' ''text'' ''chat'' = Inr ''x''
   \<and> lookup_content (Some (JObject [(''message'', JObject [(''content'', JString [])]),
       (''x'', JNumber ''1e999'' False)])) = Some []
   \<and> processChunk
     (reply (Responded (ok_response []
        (Some (JObject [(''message'', JObject [(''content'', JString [])]),
           (''x'', JNumber ''1e999'' False)])))))
     ''http://localhost:11434/api/chat'' ''m'' ''text'' ''chat'' = Inl ErrParseChat"
  by code_simp

text \<open>C9, amended. In chat mode (status 200, body read without error), for every body
  that parses as a generic map (every number in the range of \<^verbatim>\<open>float64\<close>) and in
  which key lookup finds \<open>message.content\<close> to be the empty string, the call returns a
  text and no error: present-but-empty content is not a parse failure. The text is the
  empty string, through the generic map, whenever the body does not have the canonical
  shape with a non-empty content; when it has, that content is returned.\<close>

theorem empty_content_not_failure:
  assumes "client url (ChatRequest model [(''user'', prompt content)]) = Responded resp"
    and "StatusCode resp = 200" and "\<not> ReadErr resp"
    and "lookup_content (Body resp) = Some []"
    and "Body resp = Some j" and "numbers_fit j"
  shows "\<not> isl (processChunk client url model content ''chat'')
       \<and> (canonical_content (Body resp) = None \<longrightarrow>
            processChunk client url model content ''chat'' = Inr [])
       \<and> (canonical_content (Body resp) = Some t \<longrightarrow>
            processChunk client url model content ''chat'' = Inr t)"
proof -
  have pc: "processChunk client url model content ''chat'' = parse_chat resp"
    using assms(1,2) by (rule processChunk_chat)
  have g: "generic_content (Body resp) = Some []"
    using assms(4,5,6) by (simp add: generic_content_def)
  show ?thesis
    unfolding pc using g by (simp add: parse_chat_eq [OF assms(3)] split: option.splits)
qed

theorem empty_content_not_failure_witness:
  "lookup_content (Some (JObject [(''message'', JObject [(''content'', JString [])]),
       (''eval_count'', JNumber ''42'' True)])) = Some []
   \<and> numbers_fit (JObject [(''message'', JObject [(''content'', JString [])]),
       (''eval_count'', JNumber ''42'' True)])
   \<and> processChunk
     (reply (Responded (ok_response []
        (Some (JObject [(''message'', JObject [(''content'', JString [])]),
           (''eval_count'', JNumber ''42'' True)])))))
     ''http://localhost:11434/api/chat'' ''m'' ''text'' ''chat'' = Inr []"
proof -
  let ?j = "JObject [(''message'', JObject [(''content'', JString [])]),
       (''eval_count'', JNumber ''42'' True)]"
  have ev: "lookup_content (Some ?j) = Some []" "numbers_fit ?j" "canonical_content (Some ?j) = None"
    by code_simp+
  show ?thesis
    using empty_content_not_failure [of "reply (Responded (ok_response [] (Some ?j)))"
        "''http://localhost:11434/api/chat''" "''m''" "''text''" "ok_response [] (Some ?j)" ?j] ev
    by (simp add: reply_def ok_response_def)
qed


section \<open>Properties of the scheduler\<close>

lemma step_successors:
  assumes "step K N res s s'"
  shows "s' \<in> set (successors K N res s)"
  using assms
proof (cases rule: step.cases)
  case (send i)
  then have "s' \<in> set (worker_steps N res s i)" by (simp add: worker_steps_def)
  with send(2) show ?thesis by (auto simp: successors_def)
next
  case (release i)
  then have "s' \<in> set (worker_steps N res s i)" by (simp add: worker_steps_def)
  with release(2) show ?thesis by (auto simp: successors_def)
next
  case (wg_done i)
  then have "s' \<in> set (worker_steps N res s i)" by (simp add: worker_steps_def)
  with wg_done(2) show ?thesis by (auto simp: successors_def)
qed (simp_all add: successors_def main_steps_def closer_steps_def)

lemma main_steps_step:
  assumes "s' \<in> set (main_steps K N s)"
  shows "step K N res s s'"
proof (cases "pc s")
  case (Loop i)
  show ?thesis
  proof (cases "i < N")
    case True
    then have "sem s < K" using assms Loop by (simp add: main_steps_def split: if_splits)
    from step.acquire [OF Loop True this, of res] assms Loop True this
    show ?thesis by (simp add: main_steps_def)
  next
    case False
    from step.leave_loop [OF Loop False, of K res] assms Loop False
    show ?thesis by (simp add: main_steps_def)
  qed
next
  case (Acquired i)
  from step.spawn [OF Acquired, of K N res] assms Acquired
  show ?thesis by (simp add: main_steps_def)
next
  case Collect
  show ?thesis
  proof (cases "results s")
    case Nil
    then have c: "closed s" using assms Collect by (simp add: main_steps_def split: if_splits)
    from step.leave_range [OF Collect Nil c, of K N res] assms Collect Nil c
    show ?thesis by (simp add: main_steps_def)
  next
    case (Cons r rs)
    show ?thesis
    proof (cases "Index r < length (processedChunks s)")
      case True
      from step.collect [OF Collect Cons True, of K N res] assms Collect Cons True
      show ?thesis by (simp add: main_steps_def)
    next
      case False
      from step.collect_panic [OF Collect Cons False, of K N res] assms Collect Cons False
      show ?thesis by (simp add: main_steps_def)
    qed
  qed
next
  case Finished
  with assms show ?thesis by (simp add: main_steps_def)
next
  case Panicked
  with assms show ?thesis by (simp add: main_steps_def)
qed

lemma closer_steps_step: "s' \<in> set (closer_steps s) \<Longrightarrow> step K N res s s'"
  by (auto simp: closer_steps_def split: if_splits intro: step.close_results)

lemma worker_steps_step:
  assumes "i < length (workers s)" "s' \<in> set (worker_steps N res s i)"
  shows "step K N res s s'"
proof (cases "workers s ! i")
  case Working
  then have "length (results s) < N" using assms(2) by (simp add: worker_steps_def split: if_splits)
  from step.send [OF assms(1) Working this, of K res] assms(2) Working this
  show ?thesis by (simp add: worker_steps_def)
next
  case Sent
  then have "0 < sem s" using assms(2) by (simp add: worker_steps_def split: if_splits)
  from step.release [OF assms(1) Sent this, of K N res] assms(2) Sent this
  show ?thesis by (simp add: worker_steps_def)
next
  case Released
  then have "0 < wg s" using assms(2) by (simp add: worker_steps_def split: if_splits)
  from step.wg_done [OF assms(1) Released this, of K N res] assms(2) Released this
  show ?thesis by (simp add: worker_steps_def)
qed (use assms(2) in \<open>simp_all add: worker_steps_def\<close>)

lemma step_iff_successors: "step K N res s s' \<longleftrightarrow> s' \<in> set (successors K N res s)"
proof
  assume "step K N res s s'"
  then show "s' \<in> set (successors K N res s)" by (rule step_successors)
next
  assume "s' \<in> set (successors K N res s)"
  then consider "s' \<in> set (main_steps K N s)" | "s' \<in> set (closer_steps s)"
    | i where "i < length (workers s)" "s' \<in> set (worker_steps N res s i)"
    by (auto simp: successors_def)
  then show "step K N res s s'"
    by cases (auto intro: main_steps_step closer_steps_step worker_steps_step)
qed

lemma count_update_add:
  "i < length xs \<Longrightarrow>
   length (filter P (xs[i := v])) + (if P (xs ! i) then 1 else 0)
     = length (filter P xs) + (if P v then 1 else 0)"
proof (induction xs arbitrary: i)
  case Nil
  then show ?case by simp
next
  case (Cons x xs)
  then show ?case by (cases i) auto
qed

lemma count_enter:
  "i < length xs \<Longrightarrow> \<not> P (xs ! i) \<Longrightarrow> P v \<Longrightarrow>
   length (filter P (xs[i := v])) = length (filter P xs) + 1"
  using count_update_add [of i xs P v] by simp

lemma count_leave:
  "i < length xs \<Longrightarrow> P (xs ! i) \<Longrightarrow> \<not> P v \<Longrightarrow>
   length (filter P (xs[i := v])) + 1 = length (filter P xs)"
  using count_update_add [of i xs P v] by simp

lemma count_stay:
  "i < length xs \<Longrightarrow> P (xs ! i) = P v \<Longrightarrow>
   length (filter P (xs[i := v])) = length (filter P xs)"
  using count_update_add [of i xs P v] by simp

lemma count_pos: "i < length xs \<Longrightarrow> P (xs ! i) \<Longrightarrow> 0 < length (filter P xs)"
  by (metis filter_empty_conv length_greater_0_conv nth_mem)

lemma count_witness: "0 < length (filter P xs) \<Longrightarrow> \<exists>i<length xs. P (xs ! i)"
  by (metis filter_False in_set_conv_nth length_greater_0_conv)

lemma shape_inv_init: "shape_inv N (init N)"
  by (simp add: shape_inv_def init_def)

lemma slots_inv_init: "slots_inv K (init N)"
  by (simp add: slots_inv_def init_def active_def is_active_def unfinished_def)

lemma shape_inv_step:
  assumes "shape_inv N s" "step K N res s s'"
  shows "shape_inv N s'"
  using assms(2)
proof (cases rule: step.cases)
  case (acquire i)
  then show ?thesis using assms(1) by (simp add: shape_inv_def)
next
  case (spawn i)
  with assms(1) have i: "i < N" "length (workers s) = N"
    "\<forall>j<N. (workers s ! j = Idle) = (i \<le> j)" by (simp_all add: shape_inv_def)
  have "\<forall>j<N. ((workers s)[i := Working] ! j = Idle) = (Suc i \<le> j)"
    using i by (auto simp: nth_list_update)
  then show ?thesis using assms(1) spawn i by (simp add: shape_inv_def)
next
  case (leave_loop i)
  then show ?thesis using assms(1) by (simp add: shape_inv_def)
next
  case (send i)
  with assms(1) have "\<forall>j<N. ((workers s)[i := Sent] ! j = Idle) = (workers s ! j = Idle)"
    by (auto simp: nth_list_update shape_inv_def)
  then show ?thesis using assms(1) send by (simp add: shape_inv_def)
next
  case (release i)
  with assms(1) have "\<forall>j<N. ((workers s)[i := Released] ! j = Idle) = (workers s ! j = Idle)"
    by (auto simp: nth_list_update shape_inv_def)
  then show ?thesis using assms(1) release by (simp add: shape_inv_def)
next
  case (wg_done i)
  with assms(1) have "\<forall>j<N. ((workers s)[i := Exited] ! j = Idle) = (workers s ! j = Idle)"
    by (auto simp: nth_list_update shape_inv_def)
  then show ?thesis using assms(1) wg_done by (simp add: shape_inv_def)
next
  case close_results
  then show ?thesis using assms(1) by (simp add: shape_inv_def)
next
  case (collect r rs)
  then show ?thesis using assms(1) by (simp add: shape_inv_def)
next
  case (collect_panic r rs)
  then show ?thesis using assms(1) by (simp add: shape_inv_def)
next
  case leave_range
  then show ?thesis using assms(1) by (simp add: shape_inv_def)
qed

lemma slots_inv_step:
  assumes "slots_inv K s" "shape_inv N s" "step K N res s s'"
  shows "slots_inv K s'"
  using assms(3)
proof (cases rule: step.cases)
  case (acquire i)
  then show ?thesis using assms(1) by (simp add: slots_inv_def active_def)
next
  case (spawn i)
  with assms(2) have i: "i < length (workers s)" "workers s ! i = Idle"
    by (simp_all add: shape_inv_def)
  have "length (filter is_active ((workers s)[i := Working])) = length (filter is_active (workers s)) + 1"
    "length (filter unfinished ((workers s)[i := Working])) = length (filter unfinished (workers s)) + 1"
    using i by (simp_all add: count_enter is_active_def unfinished_def)
  then show ?thesis using assms(1) spawn by (simp add: slots_inv_def active_def)
next
  case (leave_loop i)
  then show ?thesis using assms(1) by (simp add: slots_inv_def active_def)
next
  case (send i)
  then have "length (filter is_active ((workers s)[i := Sent])) = length (filter is_active (workers s))"
    "length (filter unfinished ((workers s)[i := Sent])) = length (filter unfinished (workers s))"
    by (simp_all add: count_stay is_active_def unfinished_def)
  then show ?thesis using assms(1) send by (simp add: slots_inv_def active_def)
next
  case (release i)
  then have "length (filter is_active ((workers s)[i := Released])) + 1 = length (filter is_active (workers s))"
    "length (filter unfinished ((workers s)[i := Released])) = length (filter unfinished (workers s))"
    using count_leave [of i "workers s" is_active Released]
    by (simp_all add: count_stay is_active_def unfinished_def)
  then show ?thesis using assms(1) release by (simp add: slots_inv_def active_def) linarith
next
  case (wg_done i)
  then have "length (filter is_active ((workers s)[i := Exited])) = length (filter is_active (workers s))"
    "length (filter unfinished ((workers s)[i := Exited])) + 1 = length (filter unfinished (workers s))"
    using count_leave [of i "workers s" unfinished Exited]
    by (simp_all add: count_stay is_active_def unfinished_def)
  then show ?thesis using assms(1) wg_done by (simp add: slots_inv_def active_def)
next
  case close_results
  then show ?thesis using assms(1) by (simp add: slots_inv_def active_def)
next
  case (collect r rs)
  then show ?thesis using assms(1) by (simp add: slots_inv_def active_def)
next
  case (collect_panic r rs)
  then show ?thesis using assms(1) by (simp add: slots_inv_def active_def)
next
  case leave_range
  then show ?thesis using assms(1) by (simp add: slots_inv_def active_def)
qed

lemma reachable_shape_inv: "reachable K N res s \<Longrightarrow> shape_inv N s"
  by (induction rule: reachable.induct) (auto intro: shape_inv_init shape_inv_step)

lemma reachable_slots_inv: "reachable K N res s \<Longrightarrow> slots_inv K s"
proof (induction rule: reachable.induct)
  case r_init
  show ?case by (rule slots_inv_init)
next
  case (r_step s s')
  from slots_inv_step [OF r_step.IH reachable_shape_inv [OF r_step.hyps(1)] r_step.hyps(2)]
  show ?case .
qed

lemma has_sent_update:
  assumes "i < length ws" "has_sent (ws ! i) = has_sent v"
  shows "{j. j < length ws \<and> has_sent (ws[i := v] ! j)} = {j. j < length ws \<and> has_sent (ws ! j)}"
  using assms by (auto simp: nth_list_update)

lemma has_sent_enter:
  assumes "i < length ws" "\<not> has_sent (ws ! i)" "has_sent v"
  shows "{j. j < length ws \<and> has_sent (ws[i := v] ! j)} = insert i {j. j < length ws \<and> has_sent (ws ! j)}"
  using assms by (auto simp: nth_list_update)

lemma chan_inv_init: "chan_inv N res (init N)"
  by (simp add: chan_inv_def delivered_def init_def has_sent_def)

lemma chan_inv_step:
  assumes "chan_inv N res s" "shape_inv N s" "\<forall>i<N. Index (res i) = i" "step K N res s s'"
  shows "chan_inv N res s'"
proof -
  from assms(2) have len: "length (workers s) = N" by (simp add: shape_inv_def)
  from assms(4) show ?thesis
  proof (cases rule: step.cases)
    case (acquire i)
    then show ?thesis using assms(1) by (simp add: chan_inv_def delivered_def)
  next
    case (spawn i)
    with assms(2) have i: "i < length (workers s)" "workers s ! i = Idle"
      by (simp_all add: shape_inv_def)
    from has_sent_update [of i "workers s" Working] i
    show ?thesis using assms(1) spawn len by (simp add: chan_inv_def delivered_def has_sent_def)
  next
    case (leave_loop i)
    then show ?thesis using assms(1) by (simp add: chan_inv_def delivered_def)
  next
    case (send i)
    then have i: "i < N" "Index (res i) = i" using len assms(3) by simp_all
    have new: "i \<notin> Index ` set (delivered s)"
      using assms(1) send by (simp add: chan_inv_def has_sent_def)
    have d: "delivered s' = delivered s @ [res i]"
      using send by (simp add: delivered_def)
    have w: "{j. j < N \<and> has_sent (workers s' ! j)} = insert i {j. j < N \<and> has_sent (workers s ! j)}"
      using has_sent_enter [of i "workers s" Sent] send len by (simp add: has_sent_def)
    show ?thesis
      unfolding chan_inv_def d w using assms(1) new i by (auto simp: chan_inv_def)
  next
    case (release i)
    from has_sent_update [of i "workers s" Released] release
    show ?thesis using assms(1) len by (simp add: chan_inv_def delivered_def has_sent_def)
  next
    case (wg_done i)
    from has_sent_update [of i "workers s" Exited] wg_done
    show ?thesis using assms(1) len by (simp add: chan_inv_def delivered_def has_sent_def)
  next
    case close_results
    then show ?thesis using assms(1) by (simp add: chan_inv_def delivered_def)
  next
    case (collect r rs)
    then show ?thesis using assms(1) by (simp add: chan_inv_def delivered_def)
  next
    case (collect_panic r rs)
    then show ?thesis using assms(1) by (simp add: chan_inv_def delivered_def)
  next
    case leave_range
    then show ?thesis using assms(1) by (simp add: chan_inv_def delivered_def)
  qed
qed

lemma store_inv_init: "store_inv N res (init N)"
  by (simp add: store_inv_def init_def)

lemma store_inv_step:
  assumes "store_inv N res s" "chan_inv N res s" "shape_inv N s" "step K N res s s'"
  shows "store_inv N res s'"
  using assms(4)
proof (cases rule: step.cases)
  case (collect r rs)
  from assms(3) have len: "length (processedChunks s) = N" by (simp add: shape_inv_def)
  from assms(2) collect have r: "r = res (Index r)" "Index r < N"
    by (simp_all add: chan_inv_def delivered_def)
  have "\<forall>j<N. (processedChunks s)[Index r := Content r] ! j
          = (if j \<in> Index ` set (received s @ [r]) then Content (res j) else [])"
  proof (intro allI impI)
    fix j assume "j < N"
    then show "(processedChunks s)[Index r := Content r] ! j
          = (if j \<in> Index ` set (received s @ [r]) then Content (res j) else [])"
      using assms(1) r len by (cases "j = Index r") (auto simp: store_inv_def)
  qed
  then show ?thesis using assms(1) collect by (simp add: store_inv_def)
qed (use assms(1) in \<open>simp_all add: store_inv_def\<close>)

lemma end_inv_init: "end_inv (init N)"
  by (simp add: end_inv_def init_def)

lemma end_inv_step:
  assumes "end_inv s" "slots_inv K s" "step K N res s s'"
  shows "end_inv s'"
  using assms(3)
proof (cases rule: step.cases)
  case (send i)
  have "\<not> closed s"
  proof
    assume "closed s"
    with assms(1) have "wg s = 0" by (simp add: end_inv_def)
    with assms(2) have "length (filter unfinished (workers s)) = 0" by (simp add: slots_inv_def)
    moreover from send have "0 < length (filter unfinished (workers s))"
      by (intro count_pos [of i]) (simp_all add: unfinished_def)
    ultimately show False by simp
  qed
  then show ?thesis using assms(1) send by (auto simp: end_inv_def)
qed (use assms(1) in \<open>auto simp: end_inv_def\<close>)

lemma no_panic_step:
  assumes "pc s \<noteq> Panicked" "chan_inv N res s" "shape_inv N s" "step K N res s s'"
  shows "pc s' \<noteq> Panicked"
  using assms(4)
proof (cases rule: step.cases)
  case (collect_panic r rs)
  from assms(3) have "length (processedChunks s) = N" by (simp add: shape_inv_def)
  moreover from assms(2) collect_panic have "Index r < N"
    by (simp add: chan_inv_def delivered_def)
  ultimately show ?thesis using collect_panic by simp
qed (use assms(1) in \<open>simp_all\<close>)

lemma reachable_chan_inv:
  assumes "\<forall>i<N. Index (res i) = i"
  shows "reachable K N res s \<Longrightarrow> chan_inv N res s"
proof (induction rule: reachable.induct)
  case r_init
  show ?case by (rule chan_inv_init)
next
  case (r_step s s')
  from chan_inv_step [OF r_step.IH reachable_shape_inv [OF r_step.hyps(1)] assms r_step.hyps(2)]
  show ?case .
qed

lemma reachable_store_inv:
  assumes "\<forall>i<N. Index (res i) = i"
  shows "reachable K N res s \<Longrightarrow> store_inv N res s"
proof (induction rule: reachable.induct)
  case r_init
  show ?case by (rule store_inv_init)
next
  case (r_step s s')
  from store_inv_step [OF r_step.IH reachable_chan_inv [OF assms r_step.hyps(1)]
      reachable_shape_inv [OF r_step.hyps(1)] r_step.hyps(2)]
  show ?case .
qed

lemma reachable_end_inv: "reachable K N res s \<Longrightarrow> end_inv s"
proof (induction rule: reachable.induct)
  case r_init
  show ?case by (rule end_inv_init)
next
  case (r_step s s')
  from end_inv_step [OF r_step.IH reachable_slots_inv [OF r_step.hyps(1)] r_step.hyps(2)]
  show ?case .
qed

lemma reachable_no_panic:
  assumes "\<forall>i<N. Index (res i) = i"
  shows "reachable K N res s \<Longrightarrow> pc s \<noteq> Panicked"
proof (induction rule: reachable.induct)
  case r_init
  show ?case by (simp add: init_def)
next
  case (r_step s s')
  from no_panic_step [OF r_step.IH reachable_chan_inv [OF assms r_step.hyps(1)]
      reachable_shape_inv [OF r_step.hyps(1)] r_step.hyps(2)]
  show ?case .
qed

text \<open>Every step lowers \<open>remaining\<close>, so no run goes on forever; and a state that is
  not \<open>Finished\<close> always has a step (with a semaphore of capacity at least one), so
  no run gets stuck: the result channel has room while a worker is still working, a
  worker that has sent can release, and the range loop ends once the last worker is
  done.\<close>

lemma rank_update:
  "i < length xs \<Longrightarrow>
   sum_list (map rank (xs[i := v])) + rank (xs ! i) = sum_list (map rank xs) + rank v"
proof (induction xs arbitrary: i)
  case Nil
  then show ?case by simp
next
  case (Cons x xs)
  then show ?case by (cases i) auto
qed

lemma remaining_step:
  assumes "shape_inv N s" "step K N res s s'"
  shows "remaining N s' < remaining N s"
  using assms(2)
proof (cases rule: step.cases)
  case (acquire i)
  then show ?thesis by (simp add: remaining_def)
next
  case (spawn i)
  with assms(1) have i: "i < length (workers s)" "workers s ! i = Idle" "i < N"
    by (simp_all add: shape_inv_def)
  from rank_update [OF i(1), of Working] i(2)
  have "sum_list (map rank ((workers s)[i := Working])) + 1 = sum_list (map rank (workers s))"
    by simp
  then show ?thesis using spawn i(3) by (simp add: remaining_def)
next
  case (leave_loop i)
  then show ?thesis by (simp add: remaining_def)
next
  case (send i)
  from rank_update [OF send(2), of Sent] send(3)
  have "sum_list (map rank ((workers s)[i := Sent])) + 1 = sum_list (map rank (workers s))"
    by simp
  then show ?thesis using send by (simp add: remaining_def; linarith)
next
  case (release i)
  from rank_update [OF release(2), of Released] release(3)
  have "sum_list (map rank ((workers s)[i := Released])) + 1 = sum_list (map rank (workers s))"
    by simp
  then show ?thesis using release by (simp add: remaining_def; linarith)
next
  case (wg_done i)
  from rank_update [OF wg_done(2), of Exited] wg_done(3)
  have "sum_list (map rank ((workers s)[i := Exited])) + 1 = sum_list (map rank (workers s))"
    by simp
  then show ?thesis using wg_done by (simp add: remaining_def; linarith)
next
  case close_results
  then show ?thesis by (simp add: remaining_def)
next
  case (collect r rs)
  then show ?thesis by (simp add: remaining_def)
next
  case (collect_panic r rs)
  then show ?thesis by (simp add: remaining_def)
next
  case leave_range
  then show ?thesis by (simp add: remaining_def)
qed

lemma results_room:
  assumes "chan_inv N res s" "shape_inv N s" "i < N" "workers s ! i = Working"
  shows "length (results s) < N"
proof -
  from assms(1) have d: "distinct (map Index (delivered s))"
    and e: "Index ` set (delivered s) = {j. j < N \<and> has_sent (workers s ! j)}"
    by (simp_all add: chan_inv_def)
  have "{j. j < N \<and> has_sent (workers s ! j)} \<subseteq> {0..<N} - {i}"
    using assms(4) by (auto simp: has_sent_def)
  then have "card {j. j < N \<and> has_sent (workers s ! j)} \<le> card ({0..<N} - {i})"
    by (intro card_mono) simp_all
  also have "\<dots> < N" using assms(3) by simp
  finally have "card (Index ` set (delivered s)) < N" using e by simp
  moreover have "card (Index ` set (delivered s)) = length (delivered s)"
    using d by (metis distinct_card length_map set_map)
  ultimately show ?thesis by (simp add: delivered_def)
qed

lemma worker_can_step:
  assumes "chan_inv N res s" "shape_inv N s" "slots_inv K s"
    and "i < length (workers s)" "unfinished (workers s ! i)"
  shows "\<exists>s'. step K N res s s'"
proof -
  from assms(2) have len: "length (workers s) = N" by (simp add: shape_inv_def)
  from assms(5) consider "workers s ! i = Working" | "workers s ! i = Sent" | "workers s ! i = Released"
    by (auto simp: unfinished_def)
  then show ?thesis
  proof cases
    case 1
    with results_room [OF assms(1,2)] assms(4) len have "length (results s) < N" by simp
    from step.send [OF assms(4) 1 this] show ?thesis by blast
  next
    case 2
    then have "0 < length (filter is_active (workers s))"
      using assms(4) by (intro count_pos [of i]) (simp_all add: is_active_def)
    with assms(3) have "0 < sem s" by (simp add: slots_inv_def active_def)
    from step.release [OF assms(4) 2 this] show ?thesis by blast
  next
    case 3
    then have "0 < length (filter unfinished (workers s))"
      using assms(4) by (intro count_pos [of i]) (simp_all add: unfinished_def)
    with assms(3) have "0 < wg s" by (simp add: slots_inv_def)
    from step.wg_done [OF assms(4) 3 this] show ?thesis by blast
  qed
qed

lemma progress:
  assumes "chan_inv N res s" "shape_inv N s" "slots_inv K s" "pc s \<noteq> Panicked" "0 < K"
    and "pc s \<noteq> Finished"
  shows "\<exists>s'. step K N res s s'"
proof (cases "pc s")
  case (Loop i)
  show ?thesis
  proof (cases "i < N")
    case True
    show ?thesis
    proof (cases "sem s < K")
      case True
      from step.acquire [OF Loop \<open>i < N\<close> this] show ?thesis by blast
    next
      case False
      with assms(3,5) Loop have "0 < length (filter is_active (workers s))"
        by (auto simp: slots_inv_def active_def)
      from count_witness [OF this] obtain j where j: "j < length (workers s)" "is_active (workers s ! j)"
        by blast
      then have "unfinished (workers s ! j)" by (auto simp: is_active_def unfinished_def)
      from worker_can_step [OF assms(1,2,3) j(1) this] show ?thesis .
    qed
  next
    case False
    from step.leave_loop [OF Loop this] show ?thesis by blast
  qed
next
  case (Acquired i)
  from step.spawn [OF this] show ?thesis by blast
next
  case Collect
  show ?thesis
  proof (cases "results s")
    case (Cons r rs)
    show ?thesis
    proof (cases "Index r < length (processedChunks s)")
      case True
      from step.collect [OF Collect Cons this] show ?thesis by blast
    next
      case False
      from step.collect_panic [OF Collect Cons this] show ?thesis by blast
    qed
  next
    case Nil
    show ?thesis
    proof (cases "closed s")
      case True
      from step.leave_range [OF Collect Nil this] show ?thesis by blast
    next
      case False
      show ?thesis
      proof (cases "wg s = 0")
        case True
        from step.close_results [OF Collect True False] show ?thesis by blast
      next
        case False
        with assms(3) Collect have "0 < length (filter unfinished (workers s))"
          by (simp add: slots_inv_def)
        from count_witness [OF this] obtain j where j: "j < length (workers s)" "unfinished (workers s ! j)"
          by blast
        from worker_can_step [OF assms(1,2,3) j] show ?thesis .
      qed
    qed
  qed
next
  case Finished
  with assms(6) show ?thesis by simp
next
  case Panicked
  with assms(4) show ?thesis by simp
qed

lemma reachable_trans:
  "(step K N res)\<^sup>*\<^sup>* s s' \<Longrightarrow> reachable K N res s \<Longrightarrow> reachable K N res s'"
  by (induction rule: rtranclp_induct) (auto intro: reachable.r_step)

lemma can_finish:
  assumes "\<forall>i<N. Index (res i) = i" "0 < K"
  shows "reachable K N res s \<Longrightarrow> \<exists>s'. (step K N res)\<^sup>*\<^sup>* s s' \<and> pc s' = Finished"
proof (induction "remaining N s" arbitrary: s rule: less_induct)
  case less
  show ?case
  proof (cases "pc s = Finished")
    case True
    then show ?thesis by blast
  next
    case False
    from progress [OF reachable_chan_inv [OF assms(1) less.prems] reachable_shape_inv [OF less.prems]
        reachable_slots_inv [OF less.prems] reachable_no_panic [OF assms(1) less.prems] assms(2) False]
    obtain s1 where s1: "step K N res s s1" by blast
    from remaining_step [OF reachable_shape_inv [OF less.prems] s1]
    have "remaining N s1 < remaining N s" .
    from less.hyps [OF this reachable.r_step [OF less.prems s1]]
    obtain s' where "(step K N res)\<^sup>*\<^sup>* s1 s'" "pc s' = Finished" by blast
    with s1 show ?thesis by (meson converse_rtranclp_into_rtranclp)
  qed
qed

lemma scheduler_completes:
  assumes "\<forall>i<N. Index (res i) = i" "0 < K"
  shows "always_completes K N res"
  unfolding always_completes_def
proof (intro allI impI conjI)
  fix s assume r: "reachable K N res s"
  show "pc s \<noteq> Panicked" by (rule reachable_no_panic [OF assms(1) r])
  show "\<And>s'. step K N res s s' \<Longrightarrow> remaining N s' < remaining N s"
    by (rule remaining_step [OF reachable_shape_inv [OF r]])
  assume "pc s \<noteq> Finished"
  from progress [OF reachable_chan_inv [OF assms(1) r] reachable_shape_inv [OF r]
      reachable_slots_inv [OF r] reachable_no_panic [OF assms(1) r] assms(2) this]
  show "\<exists>s'. step K N res s s'" .
qed

lemma finished_workers:
  assumes "reachable K N res s" "pc s = Finished"
  shows "closed s" "results s = []" "wg s = 0" "sem s = 0" "active s = 0"
    "\<forall>j<N. workers s ! j = Exited"
proof -
  from reachable_end_inv [OF assms(1)] assms(2)
  show c: "closed s" and r: "results s = []" and w: "wg s = 0" by (simp_all add: end_inv_def)
  from reachable_slots_inv [OF assms(1)] w assms(2)
  have u: "filter unfinished (workers s) = []" and sa: "sem s = active s"
    by (simp_all add: slots_inv_def)
  have na: "filter is_active (workers s) = []"
  proof (rule ccontr)
    assume "filter is_active (workers s) \<noteq> []"
    then obtain p where "p \<in> set (workers s)" "is_active p" by (auto simp: filter_empty_conv)
    then have "p \<in> set (filter unfinished (workers s))" by (auto simp: is_active_def unfinished_def)
    with u show False by simp
  qed
  then show a: "active s = 0" by (simp add: active_def)
  with sa show "sem s = 0" by simp
  from reachable_shape_inv [OF assms(1)] assms(2)
  have len: "length (workers s) = N" and ni: "\<forall>j<N. workers s ! j \<noteq> Idle"
    by (simp_all add: shape_inv_def)
  show "\<forall>j<N. workers s ! j = Exited"
  proof (intro allI impI)
    fix j assume j: "j < N"
    then have "workers s ! j \<in> set (workers s)" using len by simp
    with u have "\<not> unfinished (workers s ! j)" by (auto simp: filter_empty_conv)
    with ni j show "workers s ! j = Exited"
      by (cases "workers s ! j") (auto simp: unfinished_def)
  qed
qed

lemma finished_results:
  assumes "\<forall>i<N. Index (res i) = i" "reachable K N res s" "pc s = Finished"
  shows "distinct (map Index (received s))"
    and "set (map Index (received s)) = {0..<N}"
    and "list_all (\<lambda>r. r = res (Index r)) (received s)"
    and "processedChunks s = map (\<lambda>i. Content (res i)) [0..<N]"
    and "errorCount s = card {i. i < N \<and> Error (res i) \<noteq> None}"
proof -
  note fw = finished_workers [OF assms(2,3)]
  from reachable_chan_inv [OF assms(1,2)] fw(2)
  have d: "distinct (map Index (received s))"
    and m: "\<forall>r \<in> set (received s). r = res (Index r) \<and> Index r < N"
    and e: "Index ` set (received s) = {j. j < N \<and> has_sent (workers s ! j)}"
    by (simp_all add: chan_inv_def delivered_def)
  show "distinct (map Index (received s))" by (rule d)
  from e fw(6) have e': "Index ` set (received s) = {0..<N}" by (auto simp: has_sent_def)
  then show "set (map Index (received s)) = {0..<N}" by simp
  from m show "list_all (\<lambda>r. r = res (Index r)) (received s)" by (simp add: list_all_iff)
  from reachable_store_inv [OF assms(1,2)] e'
  have p: "\<forall>j<N. processedChunks s ! j = Content (res j)"
    and c: "errorCount s = length (filter (\<lambda>r. Error r \<noteq> None) (received s))"
    by (simp_all add: store_inv_def)
  from reachable_shape_inv [OF assms(2)] have "length (processedChunks s) = N"
    by (simp add: shape_inv_def)
  with p show "processedChunks s = map (\<lambda>i. Content (res i)) [0..<N]"
    by (intro nth_equalityI) simp_all
  have "filter (\<lambda>r. Error r \<noteq> None) (received s)
        = filter (\<lambda>r. Error (res (Index r)) \<noteq> None) (received s)"
    using m by (intro filter_cong) auto
  then have "length (filter (\<lambda>r. Error r \<noteq> None) (received s))
        = length (filter (\<lambda>i. Error (res i) \<noteq> None) (map Index (received s)))"
    by (simp add: filter_map comp_def)
  also have "\<dots> = card {i. i < N \<and> Error (res i) \<noteq> None}"
  proof -
    have "length (filter (\<lambda>i. Error (res i) \<noteq> None) (map Index (received s)))
          = card ({i. Error (res i) \<noteq> None} \<inter> set (map Index (received s)))"
      using d by (rule distinct_length_filter)
    also have "{i. Error (res i) \<noteq> None} \<inter> set (map Index (received s))
          = {i. i < N \<and> Error (res i) \<noteq> None}"
      using e' by auto
    finally show ?thesis .
  qed
  finally show "errorCount s = card {i. i < N \<and> Error (res i) \<noteq> None}" using c by simp
qed

text \<open>C4. In every state a run can reach, at most \<open>K\<close> worker bodies are active (at most
  3 for \<open>K = maxConcurrentRequests\<close>). Every active worker holds exactly one slot of the
  semaphore: the slots taken are those of the active workers plus the one the main
  goroutine has acquired for the worker it is about to start, and never more than \<open>K\<close>.
  Whatever the workers' results, errors included, every slot has been released when the
  run has finished.\<close>

theorem at_most_K_workers_active:
  assumes "reachable K N res s"
  shows "active s \<le> K \<and> sem s = active s + held (pc s) \<and> sem s \<le> K
       \<and> (K = maxConcurrentRequests \<longrightarrow> active s \<le> 3)
       \<and> (pc s = Finished \<longrightarrow> sem s = 0 \<and> active s = 0)"
proof -
  from reachable_slots_inv [OF assms]
  have "sem s = active s + held (pc s)" "sem s \<le> K" by (simp_all add: slots_inv_def)
  moreover have "pc s = Finished \<longrightarrow> sem s = 0 \<and> active s = 0"
    using finished_workers(4,5) [OF assms] by blast
  ultimately show ?thesis by (simp add: maxConcurrentRequests_def)
qed

lemma three_running:
  "reachable 3 4 res
     \<lparr>pc = Loop 3, workers = [Working, Working, Working, Idle], sem = 3, wg = 3, results = [],
      closed = False, processedChunks = [[], [], [], []], errorCount = 0, received = []\<rparr>"
proof -
  have n: "replicate 4 x = [x, x, x, x]" for x :: 'a
    by (simp add: numeral_Bit0)
  note r0 = reachable.r_init [of 3 4 res]
  note r1 = reachable.r_step [OF r0 step.acquire [where i = 0], simplified init_def n, simplified]
  note r2 = reachable.r_step [OF r1 step.spawn [where i = 0], simplified]
  note r3 = reachable.r_step [OF r2 step.acquire [where i = 1], simplified]
  note r4 = reachable.r_step [OF r3 step.spawn [where i = 1], simplified]
  note r5 = reachable.r_step [OF r4 step.acquire [where i = 2], simplified]
  note r6 = reachable.r_step [OF r5 step.spawn [where i = 2], simplified]
  show ?thesis using r6 by (simp add: eval_nat_numeral)
qed

theorem at_most_K_workers_active_witness:
  "reachable maxConcurrentRequests 4 (\<lambda>i. \<lparr>Index = i, Content = [], Error = None\<rparr>)
     \<lparr>pc = Loop 3, workers = [Working, Working, Working, Idle], sem = 3, wg = 3, results = [],
      closed = False, processedChunks = [[], [], [], []], errorCount = 0, received = []\<rparr>
   \<and> active
     \<lparr>pc = Loop 3, workers = [Working, Working, Working, Idle], sem = 3, wg = 3, results = [],
      closed = False, processedChunks = [[], [], [], []], errorCount = 0, received = []\<rparr> = 3
   \<and> active
     \<lparr>pc = Loop 3, workers = [Working, Working, Working, Idle], sem = 3, wg = 3, results = [],
      closed = False, processedChunks = [[], [], [], []], errorCount = 0, received = []\<rparr>
       \<le> maxConcurrentRequests"
proof -
  let ?res = "\<lambda>i. \<lparr>Index = i, Content = [], Error = None\<rparr>"
  let ?s = "\<lparr>pc = Loop 3, workers = [Working, Working, Working, Idle], sem = 3, wg = 3,
      results = [], closed = False, processedChunks = [[], [], [], []], errorCount = 0,
      received = []\<rparr>"
  have run: "reachable maxConcurrentRequests 4 ?res ?s"
    using three_running [of ?res] by (simp add: maxConcurrentRequests_def)
  from at_most_K_workers_active [OF run] have "active ?s \<le> maxConcurrentRequests" by blast
  moreover have "active ?s = 3" by (simp add: active_def is_active_def)
  ultimately show ?thesis using run by blast
qed

lemma worker_Index: "Index (fst (worker net url model api i c)) = i"
  by (simp add: worker_def split: prod.splits option.splits)

lemma result_of_Index: "\<forall>i<length chunks. Index (result_of e fl chunks i) = i"
  by (simp add: result_of_def worker_Index)

lemma main_completes:
  "always_completes maxConcurrentRequests (length chunks) (result_of e fl chunks)"
  by (rule scheduler_completes [OF result_of_Index]) (simp add: maxConcurrentRequests_def)


section \<open>Properties of the worker and of \<^verbatim>\<open>main\<close>\<close>

lemma retry_all_fail:
  "\<forall>a<maxRetries. isl (call a) \<Longrightarrow> attempt \<le> maxRetries \<Longrightarrow>
   retry call index attempt result processErr calls logged
     = (if attempt = maxRetries then result else [],
        if attempt = maxRetries then processErr else Some (projl (call (maxRetries - 1))),
        calls + (maxRetries - attempt),
        logged @ map (\<lambda>a. AttemptFailed (a + 1) index (projl (call a))) [attempt..<maxRetries])"
proof (induction call index attempt result processErr calls logged rule: retry.induct)
  case (1 call index attempt result processErr calls logged)
  show ?case
  proof (cases "attempt < maxRetries")
    case True
    with "1.prems"(1) have "isl (call attempt)" by blast
    then obtain e where e: "call attempt = Inl e" by (cases "call attempt") auto
    have step: "retry call index attempt result processErr calls logged
            = retry call index (attempt + 1) [] (Some e) (calls + 1)
                (logged @ [AttemptFailed (attempt + 1) index e])"
      using True e by (subst retry.simps) simp
    have up: "[attempt..<maxRetries] = attempt # [attempt + 1..<maxRetries]"
      using True by (simp add: upt_conv_Cons)
    have last: "projl (call (maxRetries - 1)) = e" if "attempt + 1 = maxRetries"
    proof -
      from that have "maxRetries - 1 = attempt" by simp
      with e show ?thesis by simp
    qed
    from "1.IH" [OF True e "1.prems"(1)] True
    have "retry call index (attempt + 1) [] (Some e) (calls + 1)
                (logged @ [AttemptFailed (attempt + 1) index e])
        = (if attempt + 1 = maxRetries then [] else [],
           if attempt + 1 = maxRetries then Some e else Some (projl (call (maxRetries - 1))),
           calls + 1 + (maxRetries - (attempt + 1)),
           (logged @ [AttemptFailed (attempt + 1) index e])
             @ map (\<lambda>a. AttemptFailed (a + 1) index (projl (call a))) [attempt + 1..<maxRetries])"
      by simp
    then show ?thesis
      using True e last unfolding step up by auto
  next
    case False
    with "1.prems"(2) have eq: "attempt = maxRetries" by simp
    have "retry call index attempt result processErr calls logged
            = (result, processErr, calls, logged)"
      using False by (subst retry.simps) simp
    then show ?thesis using eq by simp
  qed
qed

lemma retry_first_success:
  "\<forall>a<k. isl (call a) \<Longrightarrow> call k = Inr t \<Longrightarrow> attempt \<le> k \<Longrightarrow> k < maxRetries \<Longrightarrow>
   retry call index attempt result processErr calls logged
     = (t, None, calls + (k + 1 - attempt),
        logged @ map (\<lambda>a. AttemptFailed (a + 1) index (projl (call a))) [attempt..<k])"
proof (induction call index attempt result processErr calls logged rule: retry.induct)
  case (1 call index attempt result processErr calls logged)
  show ?case
  proof (cases "attempt = k")
    case True
    then show ?thesis using "1.prems" by (subst retry.simps) simp
  next
    case False
    with "1.prems" have lt: "attempt < k" "attempt < maxRetries" by simp_all
    with "1.prems"(1) have "isl (call attempt)" by blast
    then obtain e where e: "call attempt = Inl e" by (cases "call attempt") auto
    have step: "retry call index attempt result processErr calls logged
            = retry call index (attempt + 1) [] (Some e) (calls + 1)
                (logged @ [AttemptFailed (attempt + 1) index e])"
      using lt e by (subst retry.simps) simp
    have up: "[attempt..<k] = attempt # [attempt + 1..<k]"
      using lt by (simp add: upt_conv_Cons)
    from "1.IH" [OF lt(2) e "1.prems"(1,2)] lt "1.prems"(4)
    show ?thesis unfolding step up using e by (simp add: Suc_diff_le)
  qed
qed

lemma worker_all_fail:
  assumes "\<forall>a<maxRetries. isl (processChunk (net i a) url model c api)"
  shows "worker net url model api i c
     = (\<lparr>Index = i, Content = c,
         Error = Some (projl (processChunk (net i (maxRetries - 1)) url model c api))\<rparr>,
        maxRetries,
        map (\<lambda>a. AttemptFailed (a + 1) i (projl (processChunk (net i a) url model c api)))
            [0..<maxRetries]
          @ [AllAttemptsFailed i (projl (processChunk (net i (maxRetries - 1)) url model c api))])"
  using retry_all_fail [of "\<lambda>a. processChunk (net i a) url model c api" 0 i "[]" None 0 "[]"] assms
  by (simp add: worker_def maxRetries_def)

lemma worker_first_success:
  assumes "\<forall>a<k. isl (processChunk (net i a) url model c api)"
    and "processChunk (net i k) url model c api = Inr t" and "k < maxRetries"
  shows "worker net url model api i c
     = (\<lparr>Index = i, Content = t, Error = None\<rparr>, k + 1,
        map (\<lambda>a. AttemptFailed (a + 1) i (projl (processChunk (net i a) url model c api))) [0..<k])"
  using retry_first_success [of k "\<lambda>a. processChunk (net i a) url model c api" t 0 i "[]" None 0 "[]"]
    assms
  by (simp add: worker_def)


lemma strings_Join_joined: "strings_Join xs sep = joined sep xs"
  by (induction xs sep rule: strings_Join.induct) (simp_all add: joined_def)

lemma non200_fails:
  assumes "client url
      (if api = ''generate'' then GenerateRequest model (prompt c)
       else ChatRequest model [(''user'', prompt c)]) = Responded resp"
    and "StatusCode resp \<noteq> 200"
  shows "processChunk client url model c api = Inl (ErrStatus (StatusCode resp) (BodyText resp))"
  using assms by (simp add: processChunk_def Let_def)

lemma main_run_early:
  assumes "preflight e fl = Some (Inl out0)"
  shows "main_run e fl out \<longleftrightarrow> out = out0"
  using assms by (auto simp: main_run.simps)

lemma failed_chunks_card:
  "failed_chunks e fl chunks
     = card {i. i < length chunks \<and> Error (result_of e fl chunks i) \<noteq> None}"
proof -
  have "length (filter (\<lambda>i. Error (result_of e fl chunks i) \<noteq> None) [0..<length chunks])
        = card ({i. Error (result_of e fl chunks i) \<noteq> None} \<inter> set [0..<length chunks])"
    by (rule distinct_length_filter) simp
  also have "{i. Error (result_of e fl chunks i) \<noteq> None} \<inter> set [0..<length chunks]
        = {i. i < length chunks \<and> Error (result_of e fl chunks i) \<noteq> None}"
    by auto
  finally show ?thesis by (simp add: failed_chunks_def)
qed

lemma main_run_full:
  assumes "preflight e fl = Some (Inr (fileSize, chunks))"
  shows "main_run e fl out \<longleftrightarrow> out = final_outcome e fl fileSize chunks"
proof
  assume "main_run e fl out"
  then show "out = final_outcome e fl fileSize chunks"
  proof (cases rule: main_run.cases)
    case early
    with assms show ?thesis by simp
  next
    case (full fileSize' chunks' s)
    with assms have eq: "fileSize' = fileSize" "chunks' = chunks" by simp_all
    from finished_results(4,5) [OF result_of_Index full(3) full(4)] full(1) eq
    show ?thesis by (simp add: final_outcome_def failed_chunks_card)
  qed
next
  assume o: "out = final_outcome e fl fileSize chunks"
  have "0 < maxConcurrentRequests" by (simp add: maxConcurrentRequests_def)
  from can_finish [OF result_of_Index this reachable.r_init]
  obtain s where s: "(step maxConcurrentRequests (length chunks) (result_of e fl chunks))\<^sup>*\<^sup>*
                       (init (length chunks)) s" "pc s = Finished" by blast
  from reachable_trans [OF s(1) reachable.r_init]
  have r: "reachable maxConcurrentRequests (length chunks) (result_of e fl chunks) s" .
  from main_run.full [OF assms r s(2)] finished_results(4,5) [OF result_of_Index r s(2)] o
  show "main_run e fl out" by (simp add: final_outcome_def failed_chunks_card)
qed

lemma report_ok:
  assumes "output_ok e fl"
  shows "report e fl fileSize n processed errors =
           \<lparr>exit_code = 0, usage = False,
            written = Some (outputFile fl, strings_Join processed separator),
            summary = Some (int n - int errors, int n, int errors),
            ratio = (if fs_restat e (outputFile fl)
                     then Some (fileSize, length (strings_Join processed separator))
                     else None)\<rparr>"
  using assms by (auto simp: report_def output_ok_def Let_def)

text \<open>C1. In every run of the scheduler that reaches the end of the collection loop, the
  collector has received exactly one result for every chunk index \<open>0 .. N-1\<close>, in whatever
  order the workers finished, and \<^verbatim>\<open>processedChunks\<close> holds the content of chunk \<open>i\<close> at
  position \<open>i\<close>. The text \<^verbatim>\<open>strings.Join\<close> assembles from it is the contents in index
  order with exactly two newlines between consecutive ones and none at either end, and
  that text is what \<^verbatim>\<open>main\<close> writes to the output file.\<close>

theorem results_cover_indices_in_order:
  assumes "reachable K (length chunks) (result_of e fl chunks) s" and "pc s = Finished"
  shows "distinct (map Index (received s))
       \<and> set (map Index (received s)) = {0..<length chunks}
       \<and> length (received s) = length chunks
       \<and> processedChunks s = map (\<lambda>i. Content (result_of e fl chunks i)) [0..<length chunks]
       \<and> strings_Join (processedChunks s) separator
           = joined [CHR 0x0A, CHR 0x0A]
               (map (\<lambda>i. Content (result_of e fl chunks i)) [0..<length chunks])
       \<and> (preflight e fl = Some (Inr (fileSize, chunks)) \<and> output_ok e fl \<longrightarrow>
            (\<forall>out. main_run e fl out \<longrightarrow>
               written out = Some (outputFile fl,
                 joined [CHR 0x0A, CHR 0x0A]
                   (map (\<lambda>i. Content (result_of e fl chunks i)) [0..<length chunks]))))"
proof -
  note f = finished_results [OF result_of_Index assms]
  have "length (map Index (received s)) = card (set (map Index (received s)))"
    using f(1) by (simp only: distinct_card)
  then have len: "length (received s) = length chunks" using f(2) by simp
  have j: "strings_Join (processedChunks s) separator
           = joined [CHR 0x0A, CHR 0x0A]
               (map (\<lambda>i. Content (result_of e fl chunks i)) [0..<length chunks])"
    using f(4) by (simp add: strings_Join_joined separator_def)
  have m: "preflight e fl = Some (Inr (fileSize, chunks)) \<and> output_ok e fl \<longrightarrow>
            (\<forall>out. main_run e fl out \<longrightarrow>
               written out = Some (outputFile fl,
                 joined [CHR 0x0A, CHR 0x0A]
                   (map (\<lambda>i. Content (result_of e fl chunks i)) [0..<length chunks])))"
  proof (intro impI)
    assume a: "preflight e fl = Some (Inr (fileSize, chunks)) \<and> output_ok e fl"
    then have p: "preflight e fl = Some (Inr (fileSize, chunks))" and o: "output_ok e fl"
      by simp_all
    show "\<forall>out. main_run e fl out \<longrightarrow>
               written out = Some (outputFile fl,
                 joined [CHR 0x0A, CHR 0x0A]
                   (map (\<lambda>i. Content (result_of e fl chunks i)) [0..<length chunks]))"
      by (simp add: main_run_full [OF p] final_outcome_def report_ok [OF o] strings_Join_joined
          separator_def)
  qed
  from f(1,2,4) len j m show ?thesis by simp
qed

lemma three_results:
  "result_of (demo_env [''ab'', ''cd'', ''ef''] three_answers) demo_flags [''ab'', ''cd'', ''ef''] 0
     = \<lparr>Index = 0, Content = ''A'', Error = None\<rparr>"
  "result_of (demo_env [''ab'', ''cd'', ''ef''] three_answers) demo_flags [''ab'', ''cd'', ''ef'']
     (Suc 0) = \<lparr>Index = 1, Content = ''B'', Error = None\<rparr>"
  "result_of (demo_env [''ab'', ''cd'', ''ef''] three_answers) demo_flags [''ab'', ''cd'', ''ef'']
     (Suc (Suc 0)) = \<lparr>Index = 2, Content = ''C'', Error = None\<rparr>"
  "preflight (demo_env [''ab'', ''cd'', ''ef''] three_answers) demo_flags
     = Some (Inr (6, [''ab'', ''cd'', ''ef'']))"
  "output_ok (demo_env [''ab'', ''cd'', ''ef''] three_answers) demo_flags"
  by code_simp+

lemma out_of_order_run:
  fixes res :: "nat \<Rightarrow> ChunkResult"
  assumes "res 0 = \<lparr>Index = 0, Content = ''A'', Error = None\<rparr>"
    and "res (Suc 0) = \<lparr>Index = 1, Content = ''B'', Error = None\<rparr>"
    and "res (Suc (Suc 0)) = \<lparr>Index = 2, Content = ''C'', Error = None\<rparr>"
  shows "reachable 3 3 res
     \<lparr>pc = Finished, workers = [Exited, Exited, Exited], sem = 0, wg = 0, results = [],
      closed = True, processedChunks = [''A'', ''B'', ''C''], errorCount = 0,
      received = [\<lparr>Index = 2, Content = ''C'', Error = None\<rparr>,
                  \<lparr>Index = 0, Content = ''A'', Error = None\<rparr>,
                  \<lparr>Index = 1, Content = ''B'', Error = None\<rparr>]\<rparr>"
proof -
  let ?n = "Suc (Suc (Suc 0))"
  note r0 = reachable.r_init [of 3 ?n res]
  note r1 = reachable.r_step [OF r0 step.acquire [where i = 0], simplified init_def, simplified]
  note r2 = reachable.r_step [OF r1 step.spawn [where i = 0], simplified]
  note r3 = reachable.r_step [OF r2 step.acquire [where i = "Suc 0"], simplified]
  note r4 = reachable.r_step [OF r3 step.spawn [where i = "Suc 0"], simplified]
  note r5 = reachable.r_step [OF r4 step.acquire [where i = "Suc (Suc 0)"], simplified]
  note r6 = reachable.r_step [OF r5 step.spawn [where i = "Suc (Suc 0)"], simplified]
  note r7 = reachable.r_step [OF r6 step.send [where i = "Suc (Suc 0)"], simplified,
      simplified assms]
  note r8 = reachable.r_step [OF r7 step.send [where i = 0], simplified, simplified assms]
  note r9 = reachable.r_step [OF r8 step.release [where i = "Suc (Suc 0)"], simplified]
  note r10 = reachable.r_step [OF r9 step.wg_done [where i = "Suc (Suc 0)"], simplified]
  note r11 = reachable.r_step [OF r10 step.send [where i = "Suc 0"], simplified,
      simplified assms]
  note r12 = reachable.r_step [OF r11 step.release [where i = 0], simplified]
  note r13 = reachable.r_step [OF r12 step.release [where i = "Suc 0"], simplified]
  note r14 = reachable.r_step [OF r13 step.wg_done [where i = "Suc 0"], simplified]
  note r15 = reachable.r_step [OF r14 step.wg_done [where i = 0], simplified]
  note r16 = reachable.r_step [OF r15 step.leave_loop [where i = ?n], simplified]
  note r17 = reachable.r_step [OF r16 step.close_results, simplified]
  note r18 = reachable.r_step [OF r17 step.collect
      [where r = "\<lparr>Index = 2, Content = ''C'', Error = None\<rparr>"
         and rs = "[\<lparr>Index = 0, Content = ''A'', Error = None\<rparr>,
                    \<lparr>Index = 1, Content = ''B'', Error = None\<rparr>]"], simplified]
  note r19 = reachable.r_step [OF r18 step.collect
      [where r = "\<lparr>Index = 0, Content = ''A'', Error = None\<rparr>"
         and rs = "[\<lparr>Index = 1, Content = ''B'', Error = None\<rparr>]"], simplified]
  note r20 = reachable.r_step [OF r19 step.collect
      [where r = "\<lparr>Index = 1, Content = ''B'', Error = None\<rparr>" and rs = "[]"], simplified]
  note r21 = reachable.r_step [OF r20 step.leave_range, simplified]
  show ?thesis using r21 by (simp add: numeral_3_eq_3)
qed


theorem results_cover_indices_in_order_witness:
  "\<exists>s. reachable 3 3
        (result_of (demo_env [''ab'', ''cd'', ''ef''] three_answers) demo_flags
           [''ab'', ''cd'', ''ef'']) s
      \<and> pc s = Finished
      \<and> map Index (received s) = [2, 0, 1]
      \<and> set (map Index (received s)) = {0..<3}
      \<and> length (received s) = 3
      \<and> processedChunks s = [''A'', ''B'', ''C'']
      \<and> strings_Join (processedChunks s) separator
          = ''A'' @ [CHR 0x0A, CHR 0x0A] @ ''B'' @ [CHR 0x0A, CHR 0x0A] @ ''C''
      \<and> (\<forall>out. main_run (demo_env [''ab'', ''cd'', ''ef''] three_answers) demo_flags out \<longrightarrow>
            written out
              = Some (''llm.txt'',
                  ''A'' @ [CHR 0x0A, CHR 0x0A] @ ''B'' @ [CHR 0x0A, CHR 0x0A] @ ''C''))"
proof -
  let ?e = "demo_env [''ab'', ''cd'', ''ef''] three_answers"
  let ?res = "result_of ?e demo_flags [''ab'', ''cd'', ''ef'']"
  let ?s = "\<lparr>pc = Finished, workers = [Exited, Exited, Exited], sem = 0, wg = 0, results = [],
      closed = True, processedChunks = [''A'', ''B'', ''C''], errorCount = 0,
      received = [\<lparr>Index = 2, Content = ''C'', Error = None\<rparr>,
                  \<lparr>Index = 0, Content = ''A'', Error = None\<rparr>,
                  \<lparr>Index = 1, Content = ''B'', Error = None\<rparr>]\<rparr>"
  have run3: "reachable 3 3 ?res ?s"
    using out_of_order_run [of ?res] three_results(1,2,3) by simp
  then have run: "reachable 3 (length [''ab'', ''cd'', ''ef'']) ?res ?s"
    by (simp add: numeral_3_eq_3)
  have fin: "pc ?s = Finished" by simp
  have up: "[0..<length [''ab'', ''cd'', ''ef'']] = [0, Suc 0, Suc (Suc 0)]"
    by (simp add: upt_rec)
  note t = results_cover_indices_in_order [OF run fin, of 6, unfolded up]
  from t have a: "set (map Index (received ?s)) = {0..<3}" by (simp add: numeral_3_eq_3)
  from t have b: "strings_Join (processedChunks ?s) separator
          = ''A'' @ [CHR 0x0A, CHR 0x0A] @ ''B'' @ [CHR 0x0A, CHR 0x0A] @ ''C''"
    by (simp add: three_results(1,2,3) joined_def)
  from t three_results(4,5)
  have c: "\<forall>out. main_run ?e demo_flags out \<longrightarrow>
            written out
              = Some (''llm.txt'',
                  ''A'' @ [CHR 0x0A, CHR 0x0A] @ ''B'' @ [CHR 0x0A, CHR 0x0A] @ ''C'')"
    by (simp add: three_results(1,2,3) joined_def demo_flags_def)
  from run3 a b c show ?thesis
    by (intro exI [of _ ?s]) simp
qed

lemma upt_maxRetries: "[0..<maxRetries] = [0, 1, 2]"
  by (simp add: maxRetries_def upt_rec)

text \<open>C3. When every call of \<^verbatim>\<open>processChunk\<close> fails (as it does when the endpoint
  answers every request with a status other than 200), the worker of every chunk makes
  exactly 3 calls, logs the failure of attempt 1, 2 and 3 with the error of that attempt
  and then that all attempts failed, and sends a result whose content is the original
  chunk and whose error is the error of the third attempt. The output being writable, the
  run completes with exit code 0, writes the original chunks, two newlines between
  consecutive ones, to the output file, and reports 0 chunks processed out of \<open>N\<close> with
  \<open>N\<close> failures. The scheduler completes on every interleaving.\<close>

theorem all_calls_fail:
  assumes "preflight e fl = Some (Inr (fileSize, chunks))" and "output_ok e fl"
    and "\<forall>i<length chunks. \<forall>a<maxRetries.
           isl (processChunk (network e i a) (ollamaURL_of fl) (modelName fl) (chunks ! i)
                  (apiEndpoint fl))"
  shows "(\<forall>i<length chunks.
            worker (network e) (ollamaURL_of fl) (modelName fl) (apiEndpoint fl) i (chunks ! i)
              = (\<lparr>Index = i, Content = chunks ! i,
                  Error = Some (attempt_error e fl chunks i 2)\<rparr>, 3,
                 [AttemptFailed 1 i (attempt_error e fl chunks i 0),
                  AttemptFailed 2 i (attempt_error e fl chunks i 1),
                  AttemptFailed 3 i (attempt_error e fl chunks i 2),
                  AllAttemptsFailed i (attempt_error e fl chunks i 2)]))
       \<and> maxRetries = 3
       \<and> always_completes maxConcurrentRequests (length chunks) (result_of e fl chunks)
       \<and> (\<exists>out. main_run e fl out)
       \<and> (\<forall>out. main_run e fl out \<longrightarrow>
             exit_code out = 0
             \<and> written out = Some (outputFile fl, joined [CHR 0x0A, CHR 0x0A] chunks)
             \<and> summary out = Some (0, int (length chunks), int (length chunks)))"
proof -
  have w: "\<forall>i<length chunks.
            worker (network e) (ollamaURL_of fl) (modelName fl) (apiEndpoint fl) i (chunks ! i)
              = (\<lparr>Index = i, Content = chunks ! i,
                  Error = Some (attempt_error e fl chunks i 2)\<rparr>, 3,
                 [AttemptFailed 1 i (attempt_error e fl chunks i 0),
                  AttemptFailed 2 i (attempt_error e fl chunks i 1),
                  AttemptFailed 3 i (attempt_error e fl chunks i 2),
                  AllAttemptsFailed i (attempt_error e fl chunks i 2)])"
  proof (intro allI impI)
    fix i assume "i < length chunks"
    with assms(3) have "\<forall>a<maxRetries.
           isl (processChunk (network e i a) (ollamaURL_of fl) (modelName fl) (chunks ! i)
                  (apiEndpoint fl))"
      by simp
    from worker_all_fail [where net = "network e" and i = i and url = "ollamaURL_of fl"
        and model = "modelName fl" and c = "chunks ! i" and api = "apiEndpoint fl"] this
    show "worker (network e) (ollamaURL_of fl) (modelName fl) (apiEndpoint fl) i (chunks ! i)
              = (\<lparr>Index = i, Content = chunks ! i,
                  Error = Some (attempt_error e fl chunks i 2)\<rparr>, 3,
                 [AttemptFailed 1 i (attempt_error e fl chunks i 0),
                  AttemptFailed 2 i (attempt_error e fl chunks i 1),
                  AttemptFailed 3 i (attempt_error e fl chunks i 2),
                  AllAttemptsFailed i (attempt_error e fl chunks i 2)])"
      by (simp add: upt_maxRetries attempt_error_def) (simp add: maxRetries_def)
  qed
  then have c: "\<forall>i<length chunks. Content (result_of e fl chunks i) = chunks ! i"
    and er: "\<forall>i<length chunks. Error (result_of e fl chunks i) \<noteq> None"
    by (simp_all add: result_of_def)
  have "map (\<lambda>i. Content (result_of e fl chunks i)) [0..<length chunks]
        = map (\<lambda>i. chunks ! i) [0..<length chunks]"
    using c by simp
  then have m: "map (\<lambda>i. Content (result_of e fl chunks i)) [0..<length chunks] = chunks"
    by (simp add: map_nth)
  have "{i. i < length chunks \<and> Error (result_of e fl chunks i) \<noteq> None} = {0..<length chunks}"
    using er by auto
  then have fc: "failed_chunks e fl chunks = length chunks"
    by (simp add: failed_chunks_card)
  have fo: "final_outcome e fl fileSize chunks =
          \<lparr>exit_code = 0, usage = False,
           written = Some (outputFile fl, joined [CHR 0x0A, CHR 0x0A] chunks),
           summary = Some (0, int (length chunks), int (length chunks)),
           ratio = (if fs_restat e (outputFile fl)
                    then Some (fileSize, length (joined [CHR 0x0A, CHR 0x0A] chunks))
                    else None)\<rparr>"
    by (simp add: final_outcome_def report_ok [OF assms(2)] m fc strings_Join_joined
        separator_def)
  have mr: "\<And>out. main_run e fl out \<longleftrightarrow> out = final_outcome e fl fileSize chunks"
    by (simp add: main_run_full [OF assms(1)])
  have ex: "\<exists>out. main_run e fl out" by (simp add: mr)
  have al: "\<forall>out. main_run e fl out \<longrightarrow>
             exit_code out = 0
             \<and> written out = Some (outputFile fl, joined [CHR 0x0A, CHR 0x0A] chunks)
             \<and> summary out = Some (0, int (length chunks), int (length chunks))"
    by (simp add: mr fo)
  from w ex al main_completes [of chunks e fl] show ?thesis
    by (simp add: maxRetries_def)
qed

lemma demo_rising:
  "preflight (demo_env [''hello''] rising_status) demo_flags = Some (Inr (5, [''hello'']))"
  "output_ok (demo_env [''hello''] rising_status) demo_flags"
  "attempt_error (demo_env [''hello''] rising_status) demo_flags [''hello''] 0 0
     = ErrStatus 500 ''internal error''"
  "attempt_error (demo_env [''hello''] rising_status) demo_flags [''hello''] 0 1
     = ErrStatus 501 ''internal error''"
  "attempt_error (demo_env [''hello''] rising_status) demo_flags [''hello''] 0 2
     = ErrStatus 502 ''internal error''"
  by code_simp+

theorem all_calls_fail_witness:
  "worker rising_status ''http://localhost:11434/api/generate''
     ''llama3.2-vision:latest'' ''generate'' 0 ''hello''
     = (\<lparr>Index = 0, Content = ''hello'', Error = Some (ErrStatus 502 ''internal error'')\<rparr>, 3,
        [AttemptFailed 1 0 (ErrStatus 500 ''internal error''),
         AttemptFailed 2 0 (ErrStatus 501 ''internal error''),
         AttemptFailed 3 0 (ErrStatus 502 ''internal error''),
         AllAttemptsFailed 0 (ErrStatus 502 ''internal error'')])
   \<and> (\<exists>out. main_run (demo_env [''hello''] rising_status) demo_flags out
         \<and> exit_code out = 0 \<and> written out = Some (''llm.txt'', ''hello'')
         \<and> summary out = Some (0, 1, 1))"
proof -
  let ?e = "demo_env [''hello''] rising_status"
  have calls: "\<forall>i<length [''hello'']. \<forall>a<maxRetries.
           isl (processChunk (network ?e i a) (ollamaURL_of demo_flags) (modelName demo_flags)
                  ([''hello''] ! i) (apiEndpoint demo_flags))"
    by (simp add: demo_env_def rising_status_def reply_def non200_fails)
  note t = all_calls_fail [OF demo_rising(1,2) calls]
  note w0 = t [THEN conjunct1, rule_format, of 0, unfolded demo_rising(3,4,5)]
  from w0 have w: "worker rising_status ''http://localhost:11434/api/generate''
     ''llama3.2-vision:latest'' ''generate'' 0 ''hello''
     = (\<lparr>Index = 0, Content = ''hello'', Error = Some (ErrStatus 502 ''internal error'')\<rparr>, 3,
        [AttemptFailed 1 0 (ErrStatus 500 ''internal error''),
         AttemptFailed 2 0 (ErrStatus 501 ''internal error''),
         AttemptFailed 3 0 (ErrStatus 502 ''internal error''),
         AllAttemptsFailed 0 (ErrStatus 502 ''internal error'')])"
    by (simp add: demo_rising(3,4,5) demo_env_def demo_flags_def ollamaURL_of_def)
  from t obtain out where "main_run ?e demo_flags out" "exit_code out = 0"
    "written out = Some (outputFile demo_flags, joined [CHR 0x0A, CHR 0x0A] [''hello''])"
    "summary out = Some (0, int (length [''hello'']), int (length [''hello'']))"
    by blast
  then have "\<exists>out. main_run ?e demo_flags out
         \<and> exit_code out = 0 \<and> written out = Some (''llm.txt'', ''hello'')
         \<and> summary out = Some (0, 1, 1)"
    by (intro exI [of _ out]) (simp add: demo_flags_def joined_def)
  with w show ?thesis by simp
qed


lemma preflight_ok:
  assumes "inputFile fl \<noteq> []" and "apiEndpoint fl = ''generate'' \<or> apiEndpoint fl = ''chat''"
    and "fs_stat e (inputFile fl) = Some fileSize" and "fs_open e (inputFile fl) = Some f"
    and "\<not> fails f"
  shows "\<exists>chunks. preflight e fl = Some (Inr (fileSize, chunks)) \<and> chunker f = Some (Inr chunks)"
proof -
  from chunker_total [OF assms(5)] obtain cs where "chunker f = Some (Inr cs)" by blast
  then show ?thesis using assms(1-4) by (auto simp: preflight_def)
qed

text \<open>C8. Without \<^verbatim>\<open>-input\<close>, or with an \<^verbatim>\<open>-api\<close> other than \<open>generate\<close> and
  \<open>chat\<close>, the process prints the usage and exits with code 1. When the flags are valid,
  the input can be read and the output can be written, the run completes, on every
  interleaving of its goroutines, with exit code 0, whatever the number of chunks that
  failed; the summary reports that number.\<close>

theorem exit_codes:
  "(inputFile fl = [] \<or> (apiEndpoint fl \<noteq> ''generate'' \<and> apiEndpoint fl \<noteq> ''chat'') \<longrightarrow>
       main_run e fl exit_usage
       \<and> (\<forall>out. main_run e fl out \<longrightarrow> exit_code out = 1 \<and> usage out))
   \<and> (inputFile fl \<noteq> [] \<and> (apiEndpoint fl = ''generate'' \<or> apiEndpoint fl = ''chat'')
        \<and> fs_stat e (inputFile fl) = Some fileSize \<and> fs_open e (inputFile fl) = Some f
        \<and> \<not> fails f \<and> output_ok e fl \<longrightarrow>
       (\<exists>chunks. chunker f = Some (Inr chunks)
          \<and> always_completes maxConcurrentRequests (length chunks) (result_of e fl chunks)
          \<and> (\<exists>out. main_run e fl out)
          \<and> (\<forall>out. main_run e fl out \<longrightarrow>
                exit_code out = 0
                \<and> summary out = Some (int (length chunks) - int (failed_chunks e fl chunks),
                                      int (length chunks), int (failed_chunks e fl chunks)))))"
proof (intro conjI impI)
  assume a: "inputFile fl = [] \<or> (apiEndpoint fl \<noteq> ''generate'' \<and> apiEndpoint fl \<noteq> ''chat'')"
  then have p: "preflight e fl = Some (Inl exit_usage)" by (auto simp: preflight_def)
  show "main_run e fl exit_usage" by (simp add: main_run_early [OF p])
  show "\<forall>out. main_run e fl out \<longrightarrow> exit_code out = 1 \<and> usage out"
    by (simp add: main_run_early [OF p] exit_usage_def)
next
  assume a: "inputFile fl \<noteq> [] \<and> (apiEndpoint fl = ''generate'' \<or> apiEndpoint fl = ''chat'')
        \<and> fs_stat e (inputFile fl) = Some fileSize \<and> fs_open e (inputFile fl) = Some f
        \<and> \<not> fails f \<and> output_ok e fl"
  then have o: "output_ok e fl" by simp
  from a preflight_ok [of fl e fileSize f]
  obtain chunks where p: "preflight e fl = Some (Inr (fileSize, chunks))"
    and c: "chunker f = Some (Inr chunks)" by blast
  have "\<forall>out. main_run e fl out \<longrightarrow>
             exit_code out = 0
             \<and> summary out = Some (int (length chunks) - int (failed_chunks e fl chunks),
                                   int (length chunks), int (failed_chunks e fl chunks))"
    by (simp add: main_run_full [OF p] final_outcome_def report_ok [OF o])
  moreover have "\<exists>out. main_run e fl out" by (simp add: main_run_full [OF p])
  ultimately show "\<exists>chunks. chunker f = Some (Inr chunks)
          \<and> always_completes maxConcurrentRequests (length chunks) (result_of e fl chunks)
          \<and> (\<exists>out. main_run e fl out)
          \<and> (\<forall>out. main_run e fl out \<longrightarrow>
                exit_code out = 0
                \<and> summary out = Some (int (length chunks) - int (failed_chunks e fl chunks),
                                      int (length chunks), int (failed_chunks e fl chunks)))"
    using c main_completes [of chunks e fl] by blast
qed

lemma demo_500_failed:
  "failed_chunks (demo_env [''hello''] (always (Responded status_500))) demo_flags [''hello''] = 1"
  by code_simp

lemma demo_500_chunks:
  "chunker \<lparr>pending = [''hello''], fails = False\<rparr> = Some (Inr [''hello''])"
  by code_simp

theorem exit_codes_witness:
  "main_run (demo_env [''hello''] (always PostFailed)) (demo_flags\<lparr>inputFile := []\<rparr>) exit_usage
   \<and> main_run (demo_env [''hello''] (always PostFailed)) (demo_flags\<lparr>apiEndpoint := ''embed''\<rparr>)
        exit_usage
   \<and> exit_code exit_usage = 1 \<and> usage exit_usage
   \<and> (\<exists>out. main_run (demo_env [''hello''] (always (Responded status_500))) demo_flags out
         \<and> exit_code out = 0 \<and> summary out = Some (0, 1, 1))"
proof -
  let ?e = "demo_env [''hello''] (always PostFailed)"
  let ?e' = "demo_env [''hello''] (always (Responded status_500))"
  let ?f = "\<lparr>pending = [''hello''], fails = False\<rparr>"
  have a: "main_run ?e (demo_flags\<lparr>inputFile := []\<rparr>) exit_usage"
    using exit_codes [of "demo_flags\<lparr>inputFile := []\<rparr>" ?e] by simp
  have b: "main_run ?e (demo_flags\<lparr>apiEndpoint := ''embed''\<rparr>) exit_usage"
    using exit_codes [of "demo_flags\<lparr>apiEndpoint := ''embed''\<rparr>" ?e] by simp
  have h: "inputFile demo_flags \<noteq> [] \<and> (apiEndpoint demo_flags = ''generate'' \<or> apiEndpoint demo_flags = ''chat'')
        \<and> fs_stat ?e' (inputFile demo_flags) = Some 5 \<and> fs_open ?e' (inputFile demo_flags) = Some ?f
        \<and> \<not> fails ?f \<and> output_ok ?e' demo_flags"
    by (simp add: demo_flags_def demo_env_def output_ok_def)
  from exit_codes [of demo_flags ?e' 5 ?f] h demo_500_chunks demo_500_failed
  obtain out where "main_run ?e' demo_flags out" "exit_code out = 0" "summary out = Some (0, 1, 1)"
    by auto
  with a b show ?thesis by (auto simp: exit_usage_def)
qed

lemma chunker_empty: "pending f = [] \<Longrightarrow> \<not> fails f \<Longrightarrow> chunker f = Some (Inr [])"
  by (simp add: chunker_def read_loop.simps bufio_Read_def chunkSize_def defaultBufSize_def)

text \<open>C10. For an input file of 0 bytes the chunker produces no chunk, and the run, the
  output being writable, completes (on every interleaving of the scheduler, which has no
  worker to start) with exit code 0 and writes an empty output file.\<close>

theorem empty_input:
  assumes "inputFile fl \<noteq> []" and "apiEndpoint fl = ''generate'' \<or> apiEndpoint fl = ''chat''"
    and "fs_stat e (inputFile fl) = Some 0" and "fs_open e (inputFile fl) = Some f"
    and "pending f = []" and "\<not> fails f" and "output_ok e fl"
  shows "chunker f = Some (Inr [])
       \<and> always_completes maxConcurrentRequests 0 (result_of e fl [])
       \<and> (\<exists>out. main_run e fl out)
       \<and> (\<forall>out. main_run e fl out \<longrightarrow>
             exit_code out = 0 \<and> written out = Some (outputFile fl, []))"
proof -
  note c = chunker_empty [OF assms(5,6)]
  have p: "preflight e fl = Some (Inr (0, []))"
    using assms(1-4) c by (auto simp: preflight_def)
  show ?thesis
    using c main_completes [of "[]" e fl]
    by (simp add: main_run_full [OF p] final_outcome_def report_ok [OF assms(7)])
qed

theorem empty_input_witness:
  "chunker \<lparr>pending = [], fails = False\<rparr> = Some (Inr [])
   \<and> (\<exists>out. main_run (demo_env [] (always PostFailed)) demo_flags out
         \<and> exit_code out = 0 \<and> written out = Some (''llm.txt'', []))"
proof -
  let ?e = "demo_env [] (always PostFailed)"
  have h: "inputFile demo_flags \<noteq> []"
    "apiEndpoint demo_flags = ''generate'' \<or> apiEndpoint demo_flags = ''chat''"
    "fs_stat ?e (inputFile demo_flags) = Some 0"
    "fs_open ?e (inputFile demo_flags) = Some \<lparr>pending = [], fails = False\<rparr>"
    "pending \<lparr>pending = [], fails = False\<rparr> = []" "\<not> fails \<lparr>pending = [], fails = False\<rparr>"
    "output_ok ?e demo_flags"
    by (simp_all add: demo_flags_def demo_env_def output_ok_def)
  from empty_input [OF h]
  obtain out where "main_run ?e demo_flags out" "exit_code out = 0"
    "written out = Some (outputFile demo_flags, [])"
    and c: "chunker \<lparr>pending = [], fails = False\<rparr> = Some (Inr [])" by blast
  then show ?thesis by (intro conjI exI [of _ out]) (simp_all add: demo_flags_def)
qed

lemma demo_empty_answer:
  "preflight (demo_env [''hello''] (always (Responded (ok_response [done_line []] None)))) demo_flags
     = Some (Inr (5, [''hello'']))"
  "output_ok (demo_env [''hello''] (always (Responded (ok_response [done_line []] None)))) demo_flags"
  "result_of (demo_env [''hello''] (always (Responded (ok_response [done_line []] None))))
     demo_flags [''hello''] 0 = \<lparr>Index = 0, Content = [], Error = None\<rparr>"
  by code_simp+

text \<open>C7. The ratio line is printed whenever the final \<^verbatim>\<open>os.Stat\<close> of the output
  succeeds (lemma \<open>report_ok\<close>); the size of the output is not looked at. Here the
  model answers the only chunk of a 5-byte input with the empty text: the output file is
  empty, and the ratio is computed and printed with the operands 5 and 0. For an empty
  input the operands are 0 and 0.\<close>

theorem ratio_printed_for_empty_output:
  "main_run (demo_env [''hello''] (always (Responded (ok_response [done_line []] None)))) demo_flags
     \<lparr>exit_code = 0, usage = False, written = Some (''llm.txt'', []),
      summary = Some (1, 1, 0), ratio = Some (5, 0)\<rparr>
   \<and> main_run (demo_env [] (always PostFailed)) demo_flags
     \<lparr>exit_code = 0, usage = False, written = Some (''llm.txt'', []),
      summary = Some (0, 0, 0), ratio = Some (0, 0)\<rparr>"
proof -
  let ?e = "demo_env [''hello''] (always (Responded (ok_response [done_line []] None)))"
  have f: "failed_chunks ?e demo_flags [''hello''] = 0"
    by code_simp
  have a: "final_outcome ?e demo_flags 5 [''hello'']
         = \<lparr>exit_code = 0, usage = False, written = Some (''llm.txt'', []),
            summary = Some (1, 1, 0), ratio = Some (5, 0)\<rparr>"
    using demo_empty_answer(3)
    by (simp add: final_outcome_def report_ok [OF demo_empty_answer(2)] f)
       (simp add: demo_flags_def demo_env_def)
  let ?e0 = "demo_env [] (always PostFailed)"
  have p0: "preflight ?e0 demo_flags = Some (Inr (0, []))" by code_simp
  have o0: "output_ok ?e0 demo_flags" by code_simp
  have b: "final_outcome ?e0 demo_flags 0 []
         = \<lparr>exit_code = 0, usage = False, written = Some (''llm.txt'', []),
            summary = Some (0, 0, 0), ratio = Some (0, 0)\<rparr>"
    by (simp add: final_outcome_def report_ok [OF o0] failed_chunks_def)
       (simp add: demo_flags_def demo_env_def)
  show ?thesis
    using a b by (simp add: main_run_full [OF demo_empty_answer(1)] main_run_full [OF p0])
qed

end
